theory Spec2Isabelle
  imports Main "HOL-Library.Word" "HOL-Library.Multiset"
begin

section \<open>Memory model\<close>

text \<open>
  The queue of \<^verbatim>\<open>queue.c\<close> is a ring of \<^verbatim>\<open>struct list_head\<close> nodes. Addresses are
  natural numbers and \<open>0\<close> is the null pointer. The heap is split by field: \<open>nxt\<close> and
  \<open>prv\<close> are the \<^verbatim>\<open>next\<close> and \<^verbatim>\<open>prev\<close> members of the \<^verbatim>\<open>list_head\<close> at an address,
  \<open>val\<close> is the \<^verbatim>\<open>value\<close> member of the \<^verbatim>\<open>element_t\<close> that embeds it (an element and its
  embedded \<^verbatim>\<open>list_head\<close> share one address, so \<^verbatim>\<open>list_entry\<close> is the identity), and
  \<open>cmem\<close> holds the bytes of the character block that starts at an address (its
  length is the capacity of the block). \<open>live\<close> is the set of blocks that are
  allocated: \<^verbatim>\<open>malloc\<close> and \<^verbatim>\<open>strdup\<close> add to it, \<^verbatim>\<open>free\<close> removes from it.

  The members of a node are total functions of its address: a read through a pointer
  is a lookup, and the properties below are stated for rings whose nodes are non-null
  and, where allocation matters, allocated. A write through a character pointer is
  checked, and is a \<open>fault\<close> when the pointer is null or not allocated or the index is
  beyond the block.

  The source file holds two copies of \<^verbatim>\<open>queue.c\<close>; the model follows the first, in which
  \<^verbatim>\<open>q_swap\<close> and \<^verbatim>\<open>q_sort\<close> are written out (the second leaves their bodies empty).
\<close>

type_synonym addr = nat

abbreviation NULL :: addr where
  "NULL \<equiv> 0"

abbreviation NUL :: char where
  "NUL \<equiv> CHR 0x00"

record heap =
  nxt :: "addr \<Rightarrow> addr"
  prv :: "addr \<Rightarrow> addr"
  val :: "addr \<Rightarrow> addr"
  cmem :: "addr \<Rightarrow> string"
  live :: "addr set"

datatype fault = Invalid_write

definition set_next :: "heap \<Rightarrow> addr \<Rightarrow> addr \<Rightarrow> heap" where
  "set_next h p q = h\<lparr>nxt := (nxt h)(p := q)\<rparr>"

definition set_prev :: "heap \<Rightarrow> addr \<Rightarrow> addr \<Rightarrow> heap" where
  "set_prev h p q = h\<lparr>prv := (prv h)(p := q)\<rparr>"

definition set_value :: "heap \<Rightarrow> addr \<Rightarrow> addr \<Rightarrow> heap" where
  "set_value h p v = h\<lparr>val := (val h)(p := v)\<rparr>"

text \<open>
  \<^verbatim>\<open>malloc\<close> is the C library's: the block it returns is a parameter \<open>p\<close> of the
  operations below, \<open>NULL\<close> when the allocation fails and otherwise an address that is
  not live (\<open>fresh\<close>). \<open>alloc\<close> records a successful allocation, \<open>free\<close> a release;
  \<^verbatim>\<open>free(NULL)\<close> does nothing.
\<close>

definition fresh :: "heap \<Rightarrow> addr \<Rightarrow> bool" where
  "fresh h p = (p = NULL \<or> p \<notin> live h)"

definition alloc :: "heap \<Rightarrow> addr \<Rightarrow> heap" where
  "alloc h p = h\<lparr>live := insert p (live h)\<rparr>"

definition free :: "heap \<Rightarrow> addr \<Rightarrow> heap" where
  "free h p = (if p = NULL then h else h\<lparr>live := live h - {p}\<rparr>)"

text \<open>The C string stored in a block: the bytes before the first null byte.\<close>

definition cstring :: "string \<Rightarrow> string" where
  "cstring bs = takeWhile (\<lambda>c. c \<noteq> NUL) bs"

definition cstr :: "heap \<Rightarrow> addr \<Rightarrow> string" where
  "cstr h v = cstring (cmem h v)"

text \<open>
  \<^verbatim>\<open>strdup(s)\<close>: \<open>s\<close> is the byte sequence the argument points to, \<open>v\<close> the block
  obtained for the copy (\<open>NULL\<close> on failure). The copy holds the C string and its
  terminator.
\<close>

definition strdup :: "heap \<Rightarrow> string \<Rightarrow> addr \<Rightarrow> heap" where
  "strdup h s v =
     (if v = NULL then h
      else (alloc h v)\<lparr>cmem := (cmem h)(v := cstring s @ [NUL])\<rparr>)"

text \<open>
  \<^verbatim>\<open>strncpy(dst, src, n)\<close> writes exactly \<open>n\<close> bytes to \<open>dst\<close>: the bytes of the C string
  \<open>src\<close>, cut at \<open>n\<close>, padded with null bytes. Writing through a pointer that is null or
  not live, or beyond the capacity of the block, is a fault.
\<close>

definition strncpy :: "heap \<Rightarrow> addr \<Rightarrow> string \<Rightarrow> nat \<Rightarrow> fault + heap" where
  "strncpy h dst src n =
     (if dst = NULL \<or> dst \<notin> live h \<or> length (cmem h dst) < n then Inl Invalid_write
      else Inr (h\<lparr>cmem := (cmem h)(dst := take n (src @ replicate n NUL) @ drop n (cmem h dst))\<rparr>))"

text \<open>\<^verbatim>\<open>*(sp + i) = c\<close> for a character pointer \<open>sp\<close>.\<close>

definition store_char :: "heap \<Rightarrow> addr \<Rightarrow> nat \<Rightarrow> char \<Rightarrow> fault + heap" where
  "store_char h sp i c =
     (if sp = NULL \<or> sp \<notin> live h \<or> length (cmem h sp) \<le> i then Inl Invalid_write
      else Inr (h\<lparr>cmem := (cmem h)(sp := (cmem h sp)[i := c])\<rparr>))"

text \<open>
  \<^verbatim>\<open>strcmp\<close> compares two C strings byte by byte, the bytes read as unsigned: the
  result is the difference of the first pair of bytes that differ, the terminator
  counting as \<open>0\<close>.
\<close>

fun strcmp :: "string \<Rightarrow> string \<Rightarrow> int" where
  "strcmp [] [] = 0"
| "strcmp [] (y # ys) = - int (of_char y)"
| "strcmp (x # xs) [] = int (of_char x)"
| "strcmp (x # xs) (y # ys) =
     (if x = y then strcmp xs ys else int (of_char x) - int (of_char y))"

section \<open>The list primitives\<close>

text \<open>
  Modelled from the spec: \<^verbatim>\<open>list.h\<close>, whose functions and macros \<^verbatim>\<open>queue.c\<close> calls
  (\<^verbatim>\<open>INIT_LIST_HEAD\<close>, \<^verbatim>\<open>list_empty\<close>, \<^verbatim>\<open>list_is_singular\<close>, \<^verbatim>\<open>list_add\<close>,
  \<^verbatim>\<open>list_add_tail\<close>, \<^verbatim>\<open>list_del\<close>, \<^verbatim>\<open>list_move_tail\<close>), is not part of the sources.
  They are the primitives of the specification's circular list: a sentinel whose
  \<open>next\<close> and \<open>prev\<close> point to itself, the emptiness and singularity tests, the
  constant-time splices after and before a node, and the unlink that leaves the
  removed node's own pointers as they were. \<^verbatim>\<open>list_move_tail(node, head)\<close> unlinks
  \<open>node\<close> and links it before \<open>head\<close>, at the tail of the list that \<open>head\<close> starts:
  this is the reading under which \<^verbatim>\<open>q_swap\<close> exchanges the two nodes of a pair, as the
  specification's scenario of the list \<open>[a, b, c, d, e]\<close> requires.
\<close>

definition INIT_LIST_HEAD :: "heap \<Rightarrow> addr \<Rightarrow> heap" where
  "INIT_LIST_HEAD h head = set_prev (set_next h head head) head head"

definition list_empty :: "heap \<Rightarrow> addr \<Rightarrow> bool" where
  "list_empty h head = (nxt h head = head)"

definition list_is_singular :: "heap \<Rightarrow> addr \<Rightarrow> bool" where
  "list_is_singular h head = (\<not> list_empty h head \<and> nxt h (nxt h head) = head)"

definition list_add :: "heap \<Rightarrow> addr \<Rightarrow> addr \<Rightarrow> heap" where
  "list_add h node head =
     (let next = nxt h head;
          h1 = set_prev h next node;
          h2 = set_next h1 node next;
          h3 = set_prev h2 node head
      in set_next h3 head node)"

definition list_add_tail :: "heap \<Rightarrow> addr \<Rightarrow> addr \<Rightarrow> heap" where
  "list_add_tail h node head =
     (let prev = prv h head;
          h1 = set_next h prev node;
          h2 = set_next h1 node head;
          h3 = set_prev h2 node prev
      in set_prev h3 head node)"

definition list_del :: "heap \<Rightarrow> addr \<Rightarrow> heap" where
  "list_del h node =
     (let next = nxt h node;
          prev = prv h node;
          h1 = set_prev h next prev
      in set_next h1 prev next)"

definition list_move_tail :: "heap \<Rightarrow> addr \<Rightarrow> addr \<Rightarrow> heap" where
  "list_move_tail h node head = list_add_tail (list_del h node) node head"

section \<open>The queue operations\<close>

text \<open>\<^verbatim>\<open>q_new\<close>: \<open>p\<close> is the block \<^verbatim>\<open>malloc\<close> returned.\<close>

definition q_new :: "heap \<Rightarrow> addr \<Rightarrow> heap \<times> addr" where
  "q_new h p =
     (if p = NULL then (h, NULL)
      else (INIT_LIST_HEAD (alloc h p) p, p))"

text \<open>
  \<^verbatim>\<open>q_free\<close>: the loop of \<^verbatim>\<open>list_for_each_entry_safe\<close> keeps \<open>entry\<close> and its successor
  \<open>safe\<close>, unlinks \<open>entry\<close> and frees the element record; the sentinel is freed last.
\<close>

partial_function (option) q_free_loop :: "heap \<Rightarrow> addr \<Rightarrow> addr \<Rightarrow> addr \<Rightarrow> heap option" where
  "q_free_loop h l entry safe =
     (if entry = l then Some h
      else q_free_loop (free (list_del h entry) entry) l safe
             (nxt (free (list_del h entry) entry) safe))"

definition q_free :: "heap \<Rightarrow> addr \<Rightarrow> heap option" where
  "q_free h l =
     (case q_free_loop h l (nxt h l) (nxt h (nxt h l)) of
        None \<Rightarrow> None
      | Some h' \<Rightarrow> Some (free h' l))"

text \<open>
  \<^verbatim>\<open>q_insert_head\<close> and \<^verbatim>\<open>q_insert_tail\<close>: \<open>p\<close> is the block \<^verbatim>\<open>malloc\<close> returned for the
  element, \<open>v\<close> the block \<^verbatim>\<open>strdup\<close> returned for the string.
\<close>

definition q_insert_head :: "heap \<Rightarrow> addr \<Rightarrow> string \<Rightarrow> addr \<Rightarrow> addr \<Rightarrow> heap \<times> bool" where
  "q_insert_head h head s p v =
     (if head = NULL then (h, False)
      else if p = NULL then (h, False)
      else let h1 = set_value (strdup (alloc h p) s v) p v in
        if val h1 p = NULL then (free h1 p, False)
        else (list_add h1 p head, True))"

definition q_insert_tail :: "heap \<Rightarrow> addr \<Rightarrow> string \<Rightarrow> addr \<Rightarrow> addr \<Rightarrow> heap \<times> bool" where
  "q_insert_tail h head s p v =
     (if head = NULL then (h, False)
      else if p = NULL then (h, False)
      else let h1 = set_value (strdup (alloc h p) s v) p v in
        if val h1 p = NULL then (free h1 p, False)
        else (list_add_tail h1 p head, True))"

text \<open>
  \<^verbatim>\<open>q_remove_head\<close> and \<^verbatim>\<open>q_remove_tail\<close>: \<open>bufsize\<close> is a \<^verbatim>\<open>size_t\<close>, so \<open>bufsize - 1\<close>
  wraps around at \<open>0\<close>. The copy and the terminator are written before the unlink, and
  neither is guarded by a test of \<open>sp\<close>.
\<close>

definition q_remove_head :: "heap \<Rightarrow> addr \<Rightarrow> addr \<Rightarrow> 64 word \<Rightarrow> fault + (heap \<times> addr)" where
  "q_remove_head h head sp bufsize =
     (if head = NULL \<or> list_empty h head then Inr (h, NULL)
      else let rm = nxt h head in
        case strncpy h sp (cstr h (val h rm)) (unat (bufsize - 1)) of
          Inl e \<Rightarrow> Inl e
        | Inr h1 \<Rightarrow>
            (case store_char h1 sp (unat (bufsize - 1)) NUL of
               Inl e \<Rightarrow> Inl e
             | Inr h2 \<Rightarrow> Inr (list_del h2 rm, rm)))"

definition q_remove_tail :: "heap \<Rightarrow> addr \<Rightarrow> addr \<Rightarrow> 64 word \<Rightarrow> fault + (heap \<times> addr)" where
  "q_remove_tail h head sp bufsize =
     (if head = NULL \<or> list_empty h head then Inr (h, NULL)
      else let rm = prv h head in
        case strncpy h sp (cstr h (val h rm)) (unat (bufsize - 1)) of
          Inl e \<Rightarrow> Inl e
        | Inr h1 \<Rightarrow>
            (case store_char h1 sp (unat (bufsize - 1)) NUL of
               Inl e \<Rightarrow> Inl e
             | Inr h2 \<Rightarrow> Inr (list_del h2 rm, rm)))"

definition q_release_element :: "heap \<Rightarrow> addr \<Rightarrow> heap" where
  "q_release_element h e = free (free h (val h e)) e"

text \<open>\<^verbatim>\<open>q_delete_mid\<close>: the loop moves \<open>slow\<close> one node and \<open>fast\<close> two nodes a turn.\<close>

partial_function (option) q_delete_mid_loop :: "heap \<Rightarrow> addr \<Rightarrow> addr \<Rightarrow> addr \<Rightarrow> addr option" where
  "q_delete_mid_loop h head slow fast =
     (if fast \<noteq> head \<and> fast \<noteq> nxt h head
      then q_delete_mid_loop h head (nxt h slow) (nxt h (nxt h fast))
      else Some slow)"

definition q_delete_mid :: "heap \<Rightarrow> addr \<Rightarrow> (heap \<times> bool) option" where
  "q_delete_mid h head =
     (if head = NULL \<or> list_empty h head \<or> list_is_singular h head then Some (h, False)
      else case q_delete_mid_loop h head (nxt h head) (nxt h (nxt h head)) of
             None \<Rightarrow> None
           | Some slow \<Rightarrow> Some (q_release_element (list_del h slow) slow, True))"

text \<open>\<^verbatim>\<open>q_delete_dup\<close>: the body is the single statement \<^verbatim>\<open>return true;\<close>.\<close>

definition q_delete_dup :: "heap \<Rightarrow> addr \<Rightarrow> heap \<times> bool" where
  "q_delete_dup h head = (h, True)"

text \<open>\<^verbatim>\<open>q_swap\<close>: each turn moves the successor of \<open>node\<close> in front of \<open>node\<close>.\<close>

partial_function (option) q_swap_loop :: "heap \<Rightarrow> addr \<Rightarrow> addr \<Rightarrow> heap option" where
  "q_swap_loop h head node =
     (if node \<noteq> head \<and> nxt h node \<noteq> head
      then q_swap_loop (list_move_tail h (nxt h node) node) head
             (nxt (list_move_tail h (nxt h node) node) node)
      else Some h)"

definition q_swap :: "heap \<Rightarrow> addr \<Rightarrow> heap option" where
  "q_swap h head =
     (if head = NULL \<or> list_empty h head \<or> list_is_singular h head then Some h
      else q_swap_loop h head (nxt h head))"

text \<open>\<^verbatim>\<open>q_reverse\<close>: the body of the \<^verbatim>\<open>do\<close> loop runs before its test.\<close>

definition reverse_node :: "heap \<Rightarrow> addr \<Rightarrow> heap" where
  "reverse_node h node = set_prev (set_next h node (prv h node)) node (nxt h node)"

partial_function (option) q_reverse_loop :: "heap \<Rightarrow> addr \<Rightarrow> addr \<Rightarrow> heap option" where
  "q_reverse_loop h head node =
     (if nxt h node = head then Some (reverse_node h node)
      else q_reverse_loop (reverse_node h node) head (nxt h node))"

definition q_reverse :: "heap \<Rightarrow> addr \<Rightarrow> heap option" where
  "q_reverse h head =
     (if head = NULL \<or> list_empty h head \<or> list_is_singular h head then Some h
      else q_reverse_loop h head head)"

section \<open>The merge sort\<close>

definition element_t_cmp :: "heap \<Rightarrow> addr \<Rightarrow> addr \<Rightarrow> int" where
  "element_t_cmp h a b = strcmp (cstr h (val h a)) (cstr h (val h b))"

text \<open>
  \<^verbatim>\<open>merge\<close>: \<open>tail\<close> is a pointer to a pointer, either to the local variable \<open>head\<close> or
  to the \<open>next\<close> member of a node. The state of the loop is the heap together with the
  value of the local \<open>head\<close>.
\<close>

datatype link = Head_var | Next_field addr

fun store_link :: "heap \<times> addr \<Rightarrow> link \<Rightarrow> addr \<Rightarrow> heap \<times> addr" where
  "store_link (h, hv) Head_var a = (h, a)"
| "store_link (h, hv) (Next_field p) a = (set_next h p a, hv)"

fun load_link :: "heap \<times> addr \<Rightarrow> link \<Rightarrow> addr" where
  "load_link (h, hv) Head_var = hv"
| "load_link (h, hv) (Next_field p) = nxt h p"

partial_function (option) merge_loop ::
  "(heap \<Rightarrow> addr \<Rightarrow> addr \<Rightarrow> int) \<Rightarrow> heap \<times> addr \<Rightarrow> link \<Rightarrow> addr \<Rightarrow> addr \<Rightarrow> (heap \<times> addr) option" where
  "merge_loop cmp st tail a b =
     (if cmp (fst st) a b \<le> 0 then
        (if nxt (fst (store_link st tail a)) a = NULL
         then Some (store_link (store_link st tail a)
                      (Next_field (load_link (store_link st tail a) tail)) b)
         else merge_loop cmp (store_link st tail a)
                (Next_field (load_link (store_link st tail a) tail))
                (nxt (fst (store_link st tail a)) a) b)
      else
        (if nxt (fst (store_link st tail b)) b = NULL
         then Some (store_link (store_link st tail b)
                      (Next_field (load_link (store_link st tail b) tail)) a)
         else merge_loop cmp (store_link st tail b)
                (Next_field (load_link (store_link st tail b) tail))
                a (nxt (fst (store_link st tail b)) b)))"

definition merge :: "(heap \<Rightarrow> addr \<Rightarrow> addr \<Rightarrow> int) \<Rightarrow> heap \<Rightarrow> addr \<Rightarrow> addr \<Rightarrow> (heap \<times> addr) option" where
  "merge cmp h a b = merge_loop cmp (h, NULL) Head_var a b"

text \<open>
  \<^verbatim>\<open>reconnect\<close>: the loop returns the heap and the node it stopped at, the last of
  the chain.
\<close>

partial_function (option) reconnect_loop :: "heap \<Rightarrow> addr \<Rightarrow> (heap \<times> addr) option" where
  "reconnect_loop h node =
     (if nxt (set_prev h (nxt h node) node) (nxt (set_prev h (nxt h node) node) node) \<noteq> NULL
      then reconnect_loop (set_prev h (nxt h node) node) (nxt (set_prev h (nxt h node) node) node)
      else Some (set_prev h (nxt h node) node, nxt (set_prev h (nxt h node) node) node))"

definition reconnect :: "heap \<Rightarrow> addr \<Rightarrow> heap option" where
  "reconnect h head =
     (case reconnect_loop h head of
        None \<Rightarrow> None
      | Some (h1, node) \<Rightarrow> Some (set_prev (set_next h1 node head) head node))"

text \<open>
  \<^verbatim>\<open>merge_sort\<close>: the loop finds the node \<open>slow\<close> where the chain is cut, the cut
  writes a null pointer into the \<open>next\<close> member of the node before \<open>slow\<close>, and the two
  halves are sorted and merged. The two recursive calls are arguments of one call of
  \<^verbatim>\<open>merge\<close>; they are taken from left to right here, and they work on chains that
  share no node.
\<close>

partial_function (option) merge_sort_loop :: "heap \<Rightarrow> addr \<Rightarrow> addr \<Rightarrow> addr option" where
  "merge_sort_loop h slow fast =
     (if fast \<noteq> NULL \<and> nxt h fast \<noteq> NULL
      then merge_sort_loop h (nxt h slow) (nxt h (nxt h fast))
      else Some slow)"

partial_function (option) merge_sort ::
  "heap \<Rightarrow> addr \<Rightarrow> (heap \<Rightarrow> addr \<Rightarrow> addr \<Rightarrow> int) \<Rightarrow> (heap \<times> addr) option" where
  "merge_sort h head cmp =
     (if nxt h head = NULL then Some (h, head)
      else
        Option.bind (merge_sort_loop h (nxt h head) (nxt h (nxt h head))) (\<lambda>slow.
        Option.bind (merge_sort (set_next h (prv h slow) NULL) head cmp) (\<lambda>(h2, l).
        Option.bind (merge_sort h2 slow cmp) (\<lambda>(h3, r).
        merge cmp h3 l r))))"

definition q_sort :: "heap \<Rightarrow> addr \<Rightarrow> heap option" where
  "q_sort h head =
     (if head = NULL \<or> list_empty h head \<or> list_is_singular h head then Some h
      else
        (case merge_sort (set_next h (prv h head) NULL)
                (nxt (set_next h (prv h head) NULL) head) element_t_cmp of
           None \<Rightarrow> None
         | Some (h2, first) \<Rightarrow> reconnect (set_next h2 head first) head))"



section \<open>The abstraction: rings of nodes\<close>

text \<open>
  \<open>path f p xs q\<close>: starting at \<open>p\<close> and following the field \<open>f\<close>, the nodes visited are
  \<open>xs\<close> in this order, and the walk arrives at \<open>q\<close>.
\<close>

fun path :: "(addr \<Rightarrow> addr) \<Rightarrow> addr \<Rightarrow> addr list \<Rightarrow> addr \<Rightarrow> bool" where
  "path f p [] q = (p = q)"
| "path f p (x # xs) q = (p = x \<and> path f (f x) xs q)"

text \<open>
  \<open>ring h head ps\<close>: the sentinel \<open>head\<close> and the elements \<open>ps\<close> are distinct non-null
  nodes, \<open>next\<close> leads from the sentinel through \<open>ps\<close> back to the sentinel, and \<open>prev\<close>
  leads through the same nodes the other way round.
\<close>

definition ring :: "heap \<Rightarrow> addr \<Rightarrow> addr list \<Rightarrow> bool" where
  "ring h head ps =
     (distinct (head # ps) \<and> NULL \<notin> set (head # ps) \<and>
      path (nxt h) head (head # ps) head \<and>
      path (prv h) head (head # rev ps) head)"

text \<open>The strings of the elements \<open>ps\<close>, in the order of the list.\<close>

definition q_strings :: "heap \<Rightarrow> addr list \<Rightarrow> string list" where
  "q_strings h ps = map (\<lambda>p. cstr h (val h p)) ps"

text \<open>
  \<open>queue h head ps\<close>: a ring whose nodes are allocated and whose elements own their
  strings: every string block is allocated, no two elements share one, and no string
  block is a node. The null pointer is never an allocated block.
\<close>

definition queue :: "heap \<Rightarrow> addr \<Rightarrow> addr list \<Rightarrow> bool" where
  "queue h head ps =
     (ring h head ps \<and> set (head # ps) \<subseteq> live h \<and> val h ` set ps \<subseteq> live h \<and>
      distinct (map (val h) ps) \<and> val h ` set ps \<inter> set (head # ps) = {} \<and>
      NULL \<notin> live h)"

text \<open>
  What \<^verbatim>\<open>q_remove_head\<close> and \<^verbatim>\<open>q_remove_tail\<close> leave in the buffer: the \<open>n\<close> bytes of
  \<^verbatim>\<open>strncpy\<close> and the null byte at index \<open>n\<close>, for \<open>n = bufsize - 1\<close>.
\<close>

definition remove_write :: "string \<Rightarrow> string \<Rightarrow> nat \<Rightarrow> string" where
  "remove_write old src n = (take n (src @ replicate n NUL) @ drop n old)[n := NUL]"

text \<open>The heap in which the nodes of \<open>S\<close> have \<open>next\<close> and \<open>prev\<close> exchanged.\<close>

definition flipped :: "heap \<Rightarrow> addr set \<Rightarrow> heap" where
  "flipped h S = h\<lparr>nxt := (\<lambda>x. if x \<in> S then prv h x else nxt h x),
                    prv := (\<lambda>x. if x \<in> S then nxt h x else prv h x)\<rparr>"

section \<open>Concrete heaps\<close>

text \<open>
  \<open>empty_heap\<close> has nothing allocated. \<open>make_queue h head xs\<close> creates a queue with the
  sentinel at \<open>head\<close> and inserts at the tail, for each \<open>(s, p, v)\<close> of \<open>xs\<close>, the string
  \<open>s\<close> in an element at \<open>p\<close> whose copy of the string is at \<open>v\<close>. \<open>with_buffer h sp n\<close>
  adds a character buffer of \<open>n\<close> bytes at \<open>sp\<close>.
\<close>

definition empty_heap :: heap where
  "empty_heap = \<lparr>nxt = (\<lambda>_. NULL), prv = (\<lambda>_. NULL), val = (\<lambda>_. NULL),
                  cmem = (\<lambda>_. []), live = {}\<rparr>"

definition make_queue :: "heap \<Rightarrow> addr \<Rightarrow> (string \<times> addr \<times> addr) list \<Rightarrow> heap" where
  "make_queue h head xs =
     foldl (\<lambda>h (s, p, v). fst (q_insert_tail h head s p v)) (fst (q_new h head)) xs"

definition with_buffer :: "heap \<Rightarrow> addr \<Rightarrow> nat \<Rightarrow> heap" where
  "with_buffer h sp n = (alloc h sp)\<lparr>cmem := (cmem h)(sp := replicate n (CHR ''#''))\<rparr>"

section \<open>List functions that describe the results\<close>

text \<open>
  \<open>swap_pairs\<close> exchanges the first element of a list with the second, the third with
  the fourth and so on, and leaves the last element of a list of odd length in place.
\<close>

fun swap_pairs :: "'a list \<Rightarrow> 'a list" where
  "swap_pairs (a # b # rest) = b # a # swap_pairs rest"
| "swap_pairs [a] = [a]"
| "swap_pairs [] = []"

text \<open>
  \<open>merge_list c xs ys\<close> is the list that \<^verbatim>\<open>merge\<close> builds from two chains whose nodes are
  \<open>xs\<close> and \<open>ys\<close>: it takes the head of the left list while the comparison is not
  positive. \<open>is_stable_sort h xs ys\<close>: \<open>ys\<close> holds the elements of \<open>xs\<close>, ascending by
  \<^verbatim>\<open>element_t_cmp\<close>, the elements with one and the same string in the order they have
  in \<open>xs\<close>.
\<close>

fun merge_list :: "('a \<Rightarrow> 'a \<Rightarrow> int) \<Rightarrow> 'a list \<Rightarrow> 'a list \<Rightarrow> 'a list" where
  "merge_list c [] ys = ys"
| "merge_list c xs [] = xs"
| "merge_list c (x # xs) (y # ys) =
     (if c x y \<le> 0 then x # merge_list c xs (y # ys) else y # merge_list c (x # xs) ys)"

definition is_stable_sort :: "heap \<Rightarrow> addr list \<Rightarrow> addr list \<Rightarrow> bool" where
  "is_stable_sort h xs ys =
     (sorted_wrt (\<lambda>a b. element_t_cmp h a b \<le> 0) ys \<and> mset ys = mset xs \<and>
      (\<forall>s. filter (\<lambda>p. cstr h (val h p) = s) ys = filter (\<lambda>p. cstr h (val h p) = s) xs))"

text \<open>The node whose \<open>next\<close> member a link is, if any.\<close>

fun link_nodes :: "link \<Rightarrow> addr set" where
  "link_nodes Head_var = {}"
| "link_nodes (Next_field t) = {t}"

text \<open>
  \<open>pchain pv xs\<close>: along the chain \<open>xs\<close>, the field \<open>pv\<close> of every node but the first is
  the node before it.
\<close>

definition pchain :: "(addr \<Rightarrow> addr) \<Rightarrow> addr list \<Rightarrow> bool" where
  "pchain pv xs = (\<forall>i. Suc i < length xs \<longrightarrow> pv (xs ! Suc i) = xs ! i)"

section \<open>Sequences of operations\<close>

text \<open>
  The operations a caller applies to one queue, with what the environment supplies to
  each: the blocks \<^verbatim>\<open>malloc\<close> and \<^verbatim>\<open>strdup\<close> return to an insertion, the buffer and its
  size for a removal. \<open>exec\<close> applies one operation, \<open>run\<close> a list of them, stopping at
  the first fault; the result is \<open>None\<close> when a loop does not terminate. \<open>malloc_ok\<close>
  is the contract of the allocator: a block it returns is null or was not allocated,
  and two blocks of one insertion differ. \<open>mallocs_ok\<close> asks this of every operation
  of a list, at the heap the operation starts from.
\<close>

datatype op =
    Insert_head string addr addr
  | Insert_tail string addr addr
  | Remove_head addr "64 word"
  | Remove_tail addr "64 word"
  | Delete_mid
  | Swap
  | Reverse
  | Sort

fun exec :: "heap \<Rightarrow> addr \<Rightarrow> op \<Rightarrow> (fault + heap) option" where
  "exec h head (Insert_head s p v) = Some (Inr (fst (q_insert_head h head s p v)))"
| "exec h head (Insert_tail s p v) = Some (Inr (fst (q_insert_tail h head s p v)))"
| "exec h head (Remove_head sp bufsize) = Some (map_sum id fst (q_remove_head h head sp bufsize))"
| "exec h head (Remove_tail sp bufsize) = Some (map_sum id fst (q_remove_tail h head sp bufsize))"
| "exec h head Delete_mid = map_option (\<lambda>r. Inr (fst r)) (q_delete_mid h head)"
| "exec h head Swap = map_option Inr (q_swap h head)"
| "exec h head Reverse = map_option Inr (q_reverse h head)"
| "exec h head Sort = map_option Inr (q_sort h head)"

fun malloc_ok :: "heap \<Rightarrow> op \<Rightarrow> bool" where
  "malloc_ok h (Insert_head s p v) = (fresh h p \<and> fresh h v \<and> (v = NULL \<or> v \<noteq> p))"
| "malloc_ok h (Insert_tail s p v) = (fresh h p \<and> fresh h v \<and> (v = NULL \<or> v \<noteq> p))"
| "malloc_ok h c = True"

fun run :: "heap \<Rightarrow> addr \<Rightarrow> op list \<Rightarrow> (fault + heap) option" where
  "run h head [] = Some (Inr h)"
| "run h head (c # cs) =
     (case exec h head c of
        Some (Inr h') \<Rightarrow> run h' head cs
      | r \<Rightarrow> r)"

fun mallocs_ok :: "heap \<Rightarrow> addr \<Rightarrow> op list \<Rightarrow> bool" where
  "mallocs_ok h head [] = True"
| "mallocs_ok h head (c # cs) =
     (malloc_ok h c \<and>
      (case exec h head c of
         Some (Inr h') \<Rightarrow> mallocs_ok h' head cs
       | _ \<Rightarrow> True))"

section \<open>Properties of the memory model and of the primitives\<close>

lemma path_append: "path f p (xs @ ys) q = (\<exists>m. path f p xs m \<and> path f m ys q)"
  by (induction xs arbitrary: p) auto

lemma path_snoc: "path f p (xs @ [x]) q = (path f p xs x \<and> f x = q)"
  by (auto simp: path_append)

lemma path_cong: "(\<And>x. x \<in> set xs \<Longrightarrow> f x = g x) \<Longrightarrow> path f p xs q = path g p xs q"
  by (induction xs arbitrary: p) auto

lemma path_upd: "u \<notin> set xs \<Longrightarrow> path (f(u := v)) p xs q = path f p xs q"
  by (rule path_cong) auto

lemma nxt_set_next [simp]: "nxt (set_next h p q) = (nxt h)(p := q)"
  and prv_set_next [simp]: "prv (set_next h p q) = prv h"
  and val_set_next [simp]: "val (set_next h p q) = val h"
  and cmem_set_next [simp]: "cmem (set_next h p q) = cmem h"
  and live_set_next [simp]: "live (set_next h p q) = live h"
  by (simp_all add: set_next_def)

lemma nxt_set_prev [simp]: "nxt (set_prev h p q) = nxt h"
  and prv_set_prev [simp]: "prv (set_prev h p q) = (prv h)(p := q)"
  and val_set_prev [simp]: "val (set_prev h p q) = val h"
  and cmem_set_prev [simp]: "cmem (set_prev h p q) = cmem h"
  and live_set_prev [simp]: "live (set_prev h p q) = live h"
  by (simp_all add: set_prev_def)

lemma ring_rotate:
  assumes "ring h head (xs @ x # ys)"
  shows "ring h x (ys @ head # xs)"
  using assms by (auto simp: ring_def path_append)

lemma ring_empty_iff: "ring h head ps \<Longrightarrow> list_empty h head \<longleftrightarrow> ps = []"
  by (cases ps) (auto simp: ring_def list_empty_def)

lemma ring_singular_iff: "ring h head ps \<Longrightarrow> list_is_singular h head \<longleftrightarrow> length ps = 1"
proof (cases ps)
  case Nil
  then show "ring h head ps \<Longrightarrow> ?thesis"
    by (auto simp: ring_def list_is_singular_def list_empty_def)
next
  case (Cons a as)
  then show "ring h head ps \<Longrightarrow> ?thesis"
    by (cases as) (auto simp: ring_def list_is_singular_def list_empty_def)
qed

lemma ring_nxt_head: "ring h head (x # xs) \<Longrightarrow> nxt h head = x"
  by (auto simp: ring_def)

lemma ring_prv_head: "ring h head (xs @ [x]) \<Longrightarrow> prv h head = x"
  by (auto simp: ring_def)

lemma ring_nxt: "ring h head (xs @ x # ys) \<Longrightarrow> nxt h x = hd (ys @ [head])"
  by (cases ys) (auto simp: ring_def path_append)

lemma ring_prv: "ring h head (xs @ x # ys) \<Longrightarrow> prv h x = last (head # xs)"
  by (cases xs rule: rev_cases) (auto simp: ring_def path_append)

lemma nxt_list_add: "nxt (list_add h node head) = (nxt h)(node := nxt h head, head := node)"
  and prv_list_add: "prv (list_add h node head) = (prv h)(nxt h head := node, node := head)"
  by (simp_all add: list_add_def Let_def)

lemma nxt_list_add_tail: "nxt (list_add_tail h node head) = (nxt h)(prv h head := node, node := head)"
  and prv_list_add_tail: "prv (list_add_tail h node head) = (prv h)(node := prv h head, head := node)"
  by (simp_all add: list_add_tail_def Let_def)

lemma nxt_list_del: "nxt (list_del h node) = (nxt h)(prv h node := nxt h node)"
  and prv_list_del: "prv (list_del h node) = (prv h)(nxt h node := prv h node)"
  by (simp_all add: list_del_def Let_def)

lemma ring_list_add:
  assumes "ring h head ps" "p \<noteq> NULL" "p \<notin> set (head # ps)"
  shows "ring (list_add h p head) head (p # ps)"
proof (cases ps)
  case Nil
  with assms show ?thesis by (auto simp: ring_def nxt_list_add prv_list_add)
next
  case (Cons x xs)
  with assms show ?thesis
    by (auto simp: ring_def nxt_list_add prv_list_add path_append path_upd)
qed

lemma ring_list_add_tail:
  assumes "ring h head ps" "p \<noteq> NULL" "p \<notin> set (head # ps)"
  shows "ring (list_add_tail h p head) head (ps @ [p])"
proof (cases ps rule: rev_cases)
  case Nil
  with assms show ?thesis by (auto simp: ring_def nxt_list_add_tail prv_list_add_tail)
next
  case (snoc xs x)
  with assms show ?thesis
    by (auto simp: ring_def nxt_list_add_tail prv_list_add_tail path_append path_upd)
qed

lemma ring_list_del_first:
  assumes "ring h head (x # ps)"
  shows "ring (list_del h x) head ps"
proof (cases ps)
  case Nil
  with assms show ?thesis by (auto simp: ring_def nxt_list_del prv_list_del)
next
  case (Cons y ys)
  with assms show ?thesis
    by (auto simp: ring_def nxt_list_del prv_list_del path_append path_upd)
qed

lemmas eval_defs = q_new_def q_insert_tail_def q_insert_head_def INIT_LIST_HEAD_def alloc_def free_def
  strdup_def set_value_def set_next_def set_prev_def list_add_def list_add_tail_def list_del_def
  cstring_def cstr_def Let_def q_strings_def ring_def empty_heap_def make_queue_def with_buffer_def
  list_empty_def list_is_singular_def strncpy_def store_char_def q_release_element_def
  list_move_tail_def fresh_def

lemma live_alloc [simp]: "live (alloc h p) = insert p (live h)"
  and nxt_alloc [simp]: "nxt (alloc h p) = nxt h"
  and prv_alloc [simp]: "prv (alloc h p) = prv h"
  and val_alloc [simp]: "val (alloc h p) = val h"
  and cmem_alloc [simp]: "cmem (alloc h p) = cmem h"
  by (simp_all add: alloc_def)

lemma live_free [simp]: "live (free h p) = (if p = NULL then live h else live h - {p})"
  and nxt_free [simp]: "nxt (free h p) = nxt h"
  and prv_free [simp]: "prv (free h p) = prv h"
  and val_free [simp]: "val (free h p) = val h"
  and cmem_free [simp]: "cmem (free h p) = cmem h"
  by (simp_all add: free_def)

lemma nxt_set_value [simp]: "nxt (set_value h p v) = nxt h"
  and prv_set_value [simp]: "prv (set_value h p v) = prv h"
  and val_set_value [simp]: "val (set_value h p v) = (val h)(p := v)"
  and cmem_set_value [simp]: "cmem (set_value h p v) = cmem h"
  and live_set_value [simp]: "live (set_value h p v) = live h"
  by (simp_all add: set_value_def)

lemma nxt_strdup [simp]: "nxt (strdup h s v) = nxt h"
  and prv_strdup [simp]: "prv (strdup h s v) = prv h"
  and val_strdup [simp]: "val (strdup h s v) = val h"
  and cmem_strdup: "cmem (strdup h s v) = (if v = NULL then cmem h else (cmem h)(v := cstring s @ [NUL]))"
  and live_strdup: "live (strdup h s v) = (if v = NULL then live h else insert v (live h))"
  by (simp_all add: strdup_def)

lemma val_list_add [simp]: "val (list_add h p q) = val h"
  and cmem_list_add [simp]: "cmem (list_add h p q) = cmem h"
  and live_list_add [simp]: "live (list_add h p q) = live h"
  by (simp_all add: list_add_def Let_def)

lemma val_list_add_tail [simp]: "val (list_add_tail h p q) = val h"
  and cmem_list_add_tail [simp]: "cmem (list_add_tail h p q) = cmem h"
  and live_list_add_tail [simp]: "live (list_add_tail h p q) = live h"
  by (simp_all add: list_add_tail_def Let_def)

lemma val_list_del [simp]: "val (list_del h p) = val h"
  and cmem_list_del [simp]: "cmem (list_del h p) = cmem h"
  and live_list_del [simp]: "live (list_del h p) = live h"
  by (simp_all add: list_del_def Let_def)

lemma heap_eqI:
  "nxt h = nxt h' \<Longrightarrow> prv h = prv h' \<Longrightarrow> val h = val h' \<Longrightarrow> cmem h = cmem h' \<Longrightarrow> live h = live h'
   \<Longrightarrow> (h::heap) = h'"
  by simp

lemma cstring_idem [simp]: "cstring (cstring s @ [NUL]) = cstring s"
  by (simp add: cstring_def takeWhile_append1 takeWhile_tail)

lemma cstring_id: "NUL \<notin> set s \<Longrightarrow> cstring s = s"
  by (auto simp: cstring_def)

lemma ring_cong:
  assumes "\<And>x. x \<in> set (head # ps) \<Longrightarrow> nxt h' x = nxt h x"
    and "\<And>x. x \<in> set (head # ps) \<Longrightarrow> prv h' x = prv h x"
  shows "ring h' head ps = ring h head ps"
proof -
  have "path (nxt h') head (head # ps) head = path (nxt h) head (head # ps) head"
    by (rule path_cong) (use assms in auto)
  moreover have "path (prv h') head (head # rev ps) head = path (prv h) head (head # rev ps) head"
    by (rule path_cong) (use assms in auto)
  ultimately show ?thesis by (simp add: ring_def)
qed

lemma queue_ring: "queue h head ps \<Longrightarrow> ring h head ps"
  by (simp add: queue_def)

lemma queue_frame:
  assumes "queue h head ps" "nxt h' = nxt h" "prv h' = prv h" "live h' = live h"
    "\<And>x. x \<in> set ps \<Longrightarrow> val h' x = val h x"
  shows "queue h' head ps"
proof -
  have m: "map (val h') ps = map (val h) ps" using assms(5) by simp
  have i: "val h' ` set ps = val h ` set ps" using assms(5) by (auto simp: image_iff)
  have r: "ring h' head ps = ring h head ps" by (rule ring_cong) (simp_all add: assms)
  show ?thesis
    unfolding queue_def m i r assms(4) using assms(1) unfolding queue_def by simp
qed

lemma q_insert_head_fail:
  assumes "q_insert_head h head s p v = (h', False)" "fresh h p"
  shows "nxt h' = nxt h \<and> prv h' = prv h \<and> cmem h' = cmem h \<and> live h' = live h \<and>
         (\<forall>x. x \<noteq> p \<longrightarrow> val h' x = val h x)"
  using assms
  by (auto simp: q_insert_head_def Let_def fresh_def cmem_strdup live_strdup split: if_splits)

lemma q_insert_tail_fail:
  assumes "q_insert_tail h head s p v = (h', False)" "fresh h p"
  shows "nxt h' = nxt h \<and> prv h' = prv h \<and> cmem h' = cmem h \<and> live h' = live h \<and>
         (\<forall>x. x \<noteq> p \<longrightarrow> val h' x = val h x)"
  using assms
  by (auto simp: q_insert_tail_def Let_def fresh_def cmem_strdup live_strdup split: if_splits)

lemma queue_fresh_notin: "queue h head ps \<Longrightarrow> fresh h p \<Longrightarrow> p \<noteq> NULL \<Longrightarrow> p \<notin> set (head # ps) \<and> p \<notin> val h ` set ps"
  by (auto simp: queue_def fresh_def)

lemma queue_insert_common:
  assumes q: "queue h head ps" and p: "p \<noteq> NULL" "p \<notin> live h" and v: "v \<noteq> NULL" "v \<notin> live h" "v \<noteq> p"
    and r: "ring h1 head qs" "set qs = insert p (set ps)" "distinct qs"
    and f: "val h1 = (val h)(p := v)" "live h1 = insert v (insert p (live h))"
  shows "queue h1 head qs"
proof -
  have pn: "p \<notin> set (head # ps)" "p \<notin> val h ` set ps" "v \<notin> set (head # ps)" "v \<notin> val h ` set ps"
    using q p v by (auto simp: queue_def)
  have im: "val h1 ` set qs = insert v (val h ` set ps)"
    using pn by (auto simp: f r)
  have "distinct (map (val h1) qs)"
  proof -
    have "inj_on (val h1) (set qs)"
      using q pn by (auto simp: inj_on_def f r queue_def distinct_map)
    then show ?thesis using r(3) by (simp add: distinct_map)
  qed
  then show ?thesis
    using q pn r(1) v p unfolding queue_def im by (auto simp: f r)
qed

lemma q_insert_head_ok:
  assumes q: "queue h head ps" and p: "p \<noteq> NULL" "p \<notin> live h" and v: "v \<noteq> NULL" "v \<notin> live h" "v \<noteq> p"
  shows "\<exists>h'. q_insert_head h head s p v = (h', True) \<and> queue h' head (p # ps) \<and>
           q_strings h' (p # ps) = cstring s # q_strings h ps"
proof -
  let ?h1 = "set_value (strdup (alloc h p) s v) p v"
  have hd: "head \<noteq> NULL" using q by (auto simp: queue_def ring_def)
  have pn: "p \<notin> set (head # ps)" "p \<notin> val h ` set ps" "v \<notin> set (head # ps)" "v \<notin> val h ` set ps"
    using q p v by (auto simp: queue_def)
  have eq: "q_insert_head h head s p v = (list_add ?h1 p head, True)"
    using hd p v by (simp add: q_insert_head_def Let_def)
  have "ring ?h1 head ps = ring h head ps" by (rule ring_cong) simp_all
  then have "ring (list_add ?h1 p head) head (p # ps)"
    using q p pn by (intro ring_list_add) (auto simp: queue_def)
  then have "queue (list_add ?h1 p head) head (p # ps)"
    using q p v pn by (intro queue_insert_common[OF q p v]) (auto simp: live_strdup queue_def ring_def)
  moreover have "q_strings (list_add ?h1 p head) (p # ps) = cstring s # q_strings h ps"
    using pn v by (auto simp: q_strings_def cstr_def cmem_strdup)
  ultimately show ?thesis using eq by simp
qed

lemma q_insert_tail_ok:
  assumes q: "queue h head ps" and p: "p \<noteq> NULL" "p \<notin> live h" and v: "v \<noteq> NULL" "v \<notin> live h" "v \<noteq> p"
  shows "\<exists>h'. q_insert_tail h head s p v = (h', True) \<and> queue h' head (ps @ [p]) \<and>
           q_strings h' (ps @ [p]) = q_strings h ps @ [cstring s]"
proof -
  let ?h1 = "set_value (strdup (alloc h p) s v) p v"
  have hd: "head \<noteq> NULL" using q by (auto simp: queue_def ring_def)
  have pn: "p \<notin> set (head # ps)" "p \<notin> val h ` set ps" "v \<notin> set (head # ps)" "v \<notin> val h ` set ps"
    using q p v by (auto simp: queue_def)
  have eq: "q_insert_tail h head s p v = (list_add_tail ?h1 p head, True)"
    using hd p v by (simp add: q_insert_tail_def Let_def)
  have "ring ?h1 head ps = ring h head ps" by (rule ring_cong) simp_all
  then have "ring (list_add_tail ?h1 p head) head (ps @ [p])"
    using q p pn by (intro ring_list_add_tail) (auto simp: queue_def)
  then have "queue (list_add_tail ?h1 p head) head (ps @ [p])"
    using q p v pn by (intro queue_insert_common[OF q p v]) (auto simp: live_strdup queue_def ring_def)
  moreover have "q_strings (list_add_tail ?h1 p head) (ps @ [p]) = q_strings h ps @ [cstring s]"
    using pn v by (auto simp: q_strings_def cstr_def cmem_strdup)
  ultimately show ?thesis using eq by simp
qed

lemma ring_list_del:
  assumes "ring h head (xs @ x # ys)"
  shows "ring (list_del h x) head (xs @ ys)"
proof (cases xs rule: rev_cases)
  case Nil
  with assms show ?thesis by (simp add: ring_list_del_first)
next
  case (snoc xs' a)
  with assms have "ring h head (xs' @ a # (x # ys))" by simp
  then have "ring h a ((x # ys) @ head # xs')" by (rule ring_rotate)
  then have "ring (list_del h x) a (ys @ head # xs')" by (simp add: ring_list_del_first)
  then have "ring (list_del h x) head (xs' @ a # ys)" by (rule ring_rotate)
  with snoc show ?thesis by simp
qed

lemma queue_del:
  assumes "queue h head (xs @ x # ys)" "ring h' head (xs @ ys)" "val h' = val h"
    "live h - {x, val h x} \<subseteq> live h'" "live h' \<subseteq> live h"
  shows "queue h' head (xs @ ys)"
proof -
  have l: "\<And>y. y \<in> live h \<Longrightarrow> y \<noteq> x \<Longrightarrow> y \<noteq> val h x \<Longrightarrow> y \<in> live h'"
    using assms(4) by auto
  have a: "set (head # xs @ ys) \<subseteq> live h'"
    using assms(1) unfolding queue_def ring_def by (auto intro!: l)
  have b: "val h y \<in> live h'" if "y \<in> set (xs @ ys)" for y
  proof -
    have "val h y \<in> live h" using assms(1) that unfolding queue_def by auto
    moreover have "val h y \<in> val h ` set (xs @ x # ys)" using that by auto
    then have "val h y \<noteq> x" using assms(1) unfolding queue_def by auto
    moreover have "val h y \<noteq> val h x"
      using assms(1) that unfolding queue_def by (auto simp: image_iff)
    ultimately show ?thesis by (rule l)
  qed
  have c: "NULL \<notin> live h'" using assms(1,5) unfolding queue_def by auto
  show ?thesis
    using assms(1,2) a b c unfolding queue_def assms(3) by auto
qed

lemma cstring_terminated: "NUL \<notin> set s \<Longrightarrow> cstring (s @ NUL # r) = s"
  by (induction s) (auto simp: cstring_def)

lemma strncpy_frame:
  "strncpy h dst src n = Inr h' \<Longrightarrow>
     nxt h' = nxt h \<and> prv h' = prv h \<and> val h' = val h \<and> live h' = live h \<and>
     dst \<noteq> NULL \<and> dst \<in> live h \<and> n \<le> length (cmem h dst) \<and>
     cmem h' = (cmem h)(dst := take n (src @ replicate n NUL) @ drop n (cmem h dst))"
  by (auto simp: strncpy_def split: if_splits)

lemma store_char_frame:
  "store_char h sp i c = Inr h' \<Longrightarrow>
     nxt h' = nxt h \<and> prv h' = prv h \<and> val h' = val h \<and> live h' = live h \<and>
     i < length (cmem h sp) \<and> cmem h' = (cmem h)(sp := (cmem h sp)[i := c])"
  by (auto simp: store_char_def split: if_splits)

lemma q_remove_head_Inr:
  assumes "q_remove_head h head sp bufsize = Inr (h', r)" "head \<noteq> NULL" "nxt h head \<noteq> head"
  shows "r = nxt h head \<and> sp \<noteq> NULL \<and> sp \<in> live h \<and> unat (bufsize - 1) < length (cmem h sp) \<and>
     (\<exists>h2. h' = list_del h2 r \<and> nxt h2 = nxt h \<and> prv h2 = prv h \<and> val h2 = val h \<and> live h2 = live h \<and>
        cmem h2 = (cmem h)(sp := remove_write (cmem h sp) (cstr h (val h r)) (unat (bufsize - 1))))"
  using assms
  by (auto simp: q_remove_head_def Let_def list_empty_def remove_write_def
      split: sum.splits dest!: strncpy_frame store_char_frame)

lemma q_remove_tail_Inr:
  assumes "q_remove_tail h head sp bufsize = Inr (h', r)" "head \<noteq> NULL" "nxt h head \<noteq> head"
  shows "r = prv h head \<and> sp \<noteq> NULL \<and> sp \<in> live h \<and> unat (bufsize - 1) < length (cmem h sp) \<and>
     (\<exists>h2. h' = list_del h2 r \<and> nxt h2 = nxt h \<and> prv h2 = prv h \<and> val h2 = val h \<and> live h2 = live h \<and>
        cmem h2 = (cmem h)(sp := remove_write (cmem h sp) (cstr h (val h r)) (unat (bufsize - 1))))"
  using assms
  by (auto simp: q_remove_tail_def Let_def list_empty_def remove_write_def
      split: sum.splits dest!: strncpy_frame store_char_frame)

lemma q_remove_head_returns:
  assumes "sp \<noteq> NULL" "sp \<in> live h" "unat (bufsize - 1) < length (cmem h sp)"
  shows "\<exists>h' r. q_remove_head h head sp bufsize = Inr (h', r)"
  using assms
  by (auto simp: q_remove_head_def Let_def strncpy_def store_char_def)

lemma q_remove_tail_returns:
  assumes "sp \<noteq> NULL" "sp \<in> live h" "unat (bufsize - 1) < length (cmem h sp)"
  shows "\<exists>h' r. q_remove_tail h head sp bufsize = Inr (h', r)"
  using assms
  by (auto simp: q_remove_tail_def Let_def strncpy_def store_char_def)

lemma q_remove_head_queue:
  assumes q: "queue h head ps" and r: "q_remove_head h head sp bufsize = Inr (h', r)"
  shows "queue h' head (tl ps) \<and> r = (if ps = [] then NULL else hd ps) \<and> live h' = live h"
proof (cases ps)
  case Nil
  with q have "list_empty h head" using ring_empty_iff[of h head ps] by (simp add: queue_def)
  with r Nil q show ?thesis by (simp add: q_remove_head_def)
next
  case (Cons x xs)
  have hd: "head \<noteq> NULL" "nxt h head = x" "x \<noteq> head"
    using q Cons by (auto simp: queue_def ring_def)
  from q_remove_head_Inr[OF r hd(1)] hd obtain h2 where
    h2: "r = x" "h' = list_del h2 x" "nxt h2 = nxt h" "prv h2 = prv h" "val h2 = val h" "live h2 = live h"
    by auto
  have "queue h2 head ([] @ x # xs)" using q Cons h2 by (auto intro: queue_frame)
  moreover from this have "ring h' head ([] @ xs)" unfolding h2(2) by (intro ring_list_del) (simp add: queue_def)
  ultimately have "queue h' head ([] @ xs)"
    by (rule queue_del) (auto simp: h2)
  then show ?thesis using Cons h2 by simp
qed

lemma q_remove_tail_queue:
  assumes q: "queue h head ps" and r: "q_remove_tail h head sp bufsize = Inr (h', r)"
  shows "queue h' head (butlast ps) \<and> r = (if ps = [] then NULL else last ps) \<and> live h' = live h"
proof (cases ps rule: rev_cases)
  case Nil
  with q have "list_empty h head" using ring_empty_iff[of h head ps] by (simp add: queue_def)
  with r Nil q show ?thesis by (simp add: q_remove_tail_def)
next
  case (snoc xs x)
  have r0: "ring h head (xs @ [x])" using q snoc by (simp add: queue_def)
  have hd: "head \<noteq> NULL" "nxt h head \<noteq> head" "prv h head = x"
    using r0 ring_empty_iff[OF r0] ring_prv_head[OF r0]
    by (simp_all add: ring_def list_empty_def)
  from q_remove_tail_Inr[OF r hd(1,2)] hd obtain h2 where
    h2: "r = x" "h' = list_del h2 x" "nxt h2 = nxt h" "prv h2 = prv h" "val h2 = val h" "live h2 = live h"
    by auto
  have "queue h2 head (xs @ x # [])" using q snoc h2 by (auto intro: queue_frame)
  moreover from this have "ring h' head (xs @ [])" unfolding h2(2) by (intro ring_list_del) (simp add: queue_def)
  ultimately have "queue h' head (xs @ [])"
    by (rule queue_del) (auto simp: h2)
  then show ?thesis using snoc h2 by simp
qed

lemma remove_write_fits:
  assumes "length src \<le> n" "n < length old"
  shows "take (Suc (length src)) (remove_write old src n) = src @ [NUL]"
proof -
  have "take n (src @ replicate n NUL) = src @ replicate (n - length src) NUL"
    using assms by simp
  then have "remove_write old src n = (src @ replicate (n - length src) NUL @ drop n old)[n := NUL]"
    by (simp add: remove_write_def)
  also have "\<dots> = src @ (replicate (n - length src) NUL @ drop n old)[n - length src := NUL]"
    using assms by (simp add: list_update_append)
  also have "\<dots> = src @ replicate (n - length src) NUL @ (drop n old)[0 := NUL]"
    by (simp add: list_update_append)
  finally have e: "remove_write old src n = src @ replicate (n - length src) NUL @ (drop n old)[0 := NUL]" .
  have ne: "drop n old \<noteq> []" using assms by simp
  show ?thesis
  proof (cases "n = length src")
    case True
    with ne show ?thesis unfolding e by (cases "drop n old") auto
  next
    case False
    then obtain k where "n - length src = Suc k" using assms by (cases "n - length src") auto
    then show ?thesis unfolding e by simp
  qed
qed

lemma reverse_node_flipped:
  "node \<notin> S \<Longrightarrow> reverse_node (flipped h S) node = flipped h (insert node S)"
  by (rule heap_eqI) (auto simp: reverse_node_def flipped_def fun_eq_iff)

lemma flipped_empty [simp]: "flipped h {} = h"
  by (simp add: flipped_def)

lemma flipped_flipped [simp]: "flipped (flipped h S) S = h"
  by (auto simp: flipped_def intro!: heap_eqI)

lemma ring_nxt_cyc:
  assumes "ring h head ps" "head # ps = pre @ node # rest"
  shows "nxt h node = hd (rest @ [head])"
proof -
  have "path (nxt h) head (pre @ node # rest) head"
    using assms(1) unfolding ring_def assms(2) by simp
  then show ?thesis by (cases rest) (auto simp: path_append)
qed

lemma q_reverse_loop_correct:
  assumes "ring h0 head ps" "head # ps = pre @ node # rest"
  shows "q_reverse_loop (flipped h0 (set pre)) head node = Some (flipped h0 (set (head # ps)))"
  using assms(2)
proof (induction rest arbitrary: pre node)
  case Nil
  have d: "distinct (pre @ [node])" using assms(1) unfolding ring_def Nil by simp
  then have n: "node \<notin> set pre" by simp
  have "nxt h0 node = head" using ring_nxt_cyc[OF assms(1) Nil] by simp
  then have "nxt (flipped h0 (set pre)) node = head" using n by (simp add: flipped_def)
  moreover have "insert node (set pre) = set (head # ps)" unfolding Nil by simp
  ultimately show ?case
    by (subst q_reverse_loop.simps) (simp add: reverse_node_flipped[OF n])
next
  case (Cons y ys)
  have d: "distinct (pre @ node # y # ys)" using assms(1) unfolding ring_def Cons.prems by simp
  then have n: "node \<notin> set pre" by simp
  have "hd (pre @ node # y # ys) = head" using Cons.prems by (metis list.sel(1))
  then have yh: "y \<noteq> head" using d by (cases pre) auto
  have ny: "nxt h0 node = y" using ring_nxt_cyc[OF assms(1) Cons.prems] by simp
  then have "nxt (flipped h0 (set pre)) node = y" using n by (simp add: flipped_def)
  moreover have "q_reverse_loop (flipped h0 (set (pre @ [node]))) head y = Some (flipped h0 (set (head # ps)))"
    by (rule Cons.IH) (simp add: Cons.prems)
  ultimately show ?case
    using yh by (subst q_reverse_loop.simps) (simp add: reverse_node_flipped[OF n])
qed

lemma ring_small_flipped:
  assumes "ring h head ps" "length ps \<le> 1"
  shows "flipped h (set (head # ps)) = h"
proof -
  have "\<And>x. x \<in> set (head # ps) \<Longrightarrow> nxt h x = prv h x"
  proof (cases ps)
    case Nil
    fix x assume "x \<in> set (head # ps)"
    with Nil assms show "nxt h x = prv h x" by (auto simp: ring_def)
  next
    case (Cons a as)
    fix x assume "x \<in> set (head # ps)"
    with Cons assms show "nxt h x = prv h x" by (auto simp: ring_def)
  qed
  then show ?thesis by (auto simp: flipped_def intro!: heap_eqI)
qed

lemma q_reverse_flipped:
  assumes "ring h head ps"
  shows "q_reverse h head = Some (flipped h (set (head # ps)))"
proof (cases "length ps \<le> 1")
  case True
  then have "list_empty h head \<or> list_is_singular h head"
    using ring_empty_iff[OF assms] ring_singular_iff[OF assms] by (cases ps) auto
  then show ?thesis using ring_small_flipped[OF assms True] by (auto simp: q_reverse_def)
next
  case False
  then have "\<not> list_empty h head" "\<not> list_is_singular h head" "head \<noteq> NULL"
    using ring_empty_iff[OF assms] ring_singular_iff[OF assms] assms by (auto simp: ring_def)
  moreover have "q_reverse_loop (flipped h (set [])) head head = Some (flipped h (set (head # ps)))"
    by (rule q_reverse_loop_correct[OF assms]) simp
  ultimately show ?thesis by (simp add: q_reverse_def)
qed

lemma ring_flipped:
  assumes "ring h head ps"
  shows "ring (flipped h (set (head # ps))) head (rev ps)"
proof -
  let ?h = "flipped h (set (head # ps))"
  have "path (nxt ?h) head (head # rev ps) head = path (prv h) head (head # rev ps) head"
    by (rule path_cong) (auto simp: flipped_def)
  moreover have "path (prv ?h) head (head # ps) head = path (nxt h) head (head # ps) head"
    by (rule path_cong) (auto simp: flipped_def)
  ultimately show ?thesis using assms by (simp add: ring_def)
qed

lemma q_reverse_correct:
  assumes "ring h head ps"
  shows "\<exists>h'. q_reverse h head = Some h' \<and> ring h' head (rev ps) \<and>
           (\<forall>n\<in>set (head # ps). nxt h' n = prv h n \<and> prv h' n = nxt h n) \<and>
           (\<forall>n. n \<notin> set (head # ps) \<longrightarrow> nxt h' n = nxt h n \<and> prv h' n = prv h n) \<and>
           val h' = val h \<and> cmem h' = cmem h \<and> live h' = live h \<and>
           q_reverse h' head = Some h"
proof -
  let ?h = "flipped h (set (head # ps))"
  have r: "ring ?h head (rev ps)" by (rule ring_flipped[OF assms])
  have "q_reverse ?h head = Some (flipped ?h (set (head # rev ps)))"
    by (rule q_reverse_flipped[OF r])
  then have "q_reverse ?h head = Some h" by simp
  then show ?thesis
    using q_reverse_flipped[OF assms] r by (auto simp: flipped_def)
qed

lemma length_swap_pairs [simp]: "length (swap_pairs xs) = length xs"
  by (induction xs rule: swap_pairs.induct) auto

lemma map_swap_pairs: "map f (swap_pairs xs) = swap_pairs (map f xs)"
  by (induction xs rule: swap_pairs.induct) auto

lemma set_swap_pairs [simp]: "set (swap_pairs xs) = set xs"
  by (induction xs rule: swap_pairs.induct) auto

lemma swap_pairs_nth:
  "i < length xs \<Longrightarrow>
     swap_pairs xs ! i = (if even i then (if Suc i < length xs then xs ! Suc i else xs ! i) else xs ! (i - 1))"
proof (induction xs arbitrary: i rule: swap_pairs.induct)
  case (1 a b rest)
  show ?case
  proof (cases i)
    case 0
    then show ?thesis by simp
  next
    case (Suc j)
    show ?thesis
    proof (cases j)
      case 0
      with Suc show ?thesis by simp
    next
      case (Suc k)
      with \<open>i = Suc j\<close> 1 show ?thesis by (auto simp: nth_Cons' elim: oddE)
    qed
  qed
qed auto

lemma val_list_move_tail [simp]: "val (list_move_tail h p q) = val h"
  and cmem_list_move_tail [simp]: "cmem (list_move_tail h p q) = cmem h"
  and live_list_move_tail [simp]: "live (list_move_tail h p q) = live h"
  by (simp_all add: list_move_tail_def)

lemma ring_list_add_before:
  assumes "ring h head (xs @ a # ys)" "b \<noteq> NULL" "b \<notin> set (head # xs @ a # ys)"
  shows "ring (list_add_tail h b a) head (xs @ b # a # ys)"
proof -
  have "ring h a (ys @ head # xs)" using assms(1) by (rule ring_rotate)
  then have "ring (list_add_tail h b a) a ((ys @ head # xs) @ [b])"
    using assms(2,3) by (intro ring_list_add_tail) auto
  then have "ring (list_add_tail h b a) a (ys @ head # (xs @ [b]))" by simp
  then have "ring (list_add_tail h b a) head ((xs @ [b]) @ a # ys)" by (rule ring_rotate)
  then show ?thesis by simp
qed

lemma ring_list_move_tail:
  assumes "ring h head (xs @ a # b # ys)"
  shows "ring (list_move_tail h b a) head (xs @ b # a # ys)"
proof -
  have d: "b \<noteq> NULL" "b \<notin> set (head # xs @ a # ys)"
    using assms by (auto simp: ring_def)
  have "ring h head ((xs @ [a]) @ b # ys)" using assms by simp
  then have "ring (list_del h b) head ((xs @ [a]) @ ys)" by (rule ring_list_del)
  then have "ring (list_del h b) head (xs @ a # ys)" by simp
  then show ?thesis unfolding list_move_tail_def using d by (rule ring_list_add_before)
qed

lemma q_swap_loop_correct:
  assumes "ring h head (pre @ rest)"
  shows "\<exists>h'. q_swap_loop h head (hd (rest @ [head])) = Some h' \<and>
           ring h' head (pre @ swap_pairs rest) \<and>
           val h' = val h \<and> cmem h' = cmem h \<and> live h' = live h"
  using assms
proof (induction rest arbitrary: h pre rule: swap_pairs.induct)
  case (1 a b rest)
  let ?h1 = "list_move_tail h b a"
  have ne: "a \<noteq> head" "b \<noteq> head" using 1(2) by (auto simp: ring_def)
  have nb: "nxt h a = b" using ring_nxt[of h head pre a "b # rest"] 1(2) by simp
  have r1: "ring ?h1 head (pre @ b # a # rest)" using 1(2) by (rule ring_list_move_tail)
  then have "ring ?h1 head ((pre @ [b]) @ a # rest)" by simp
  then have na: "nxt ?h1 a = hd (rest @ [head])" by (rule ring_nxt)
  have "ring ?h1 head ((pre @ [b, a]) @ rest)" using r1 by simp
  from 1(1)[OF this] obtain h' where h':
    "q_swap_loop ?h1 head (hd (rest @ [head])) = Some h'"
    "ring h' head ((pre @ [b, a]) @ swap_pairs rest)"
    "val h' = val ?h1" "cmem h' = cmem ?h1" "live h' = live ?h1"
    by blast
  have "q_swap_loop h head a = Some h'"
    using ne nb na h'(1) by (subst q_swap_loop.simps) simp
  then show ?case using h' by simp
next
  case (2 a)
  have "a \<noteq> head" using 2 by (auto simp: ring_def)
  moreover have "nxt h a = head" using ring_nxt[of h head pre a "[]"] 2 by simp
  ultimately have "q_swap_loop h head a = Some h" by (subst q_swap_loop.simps) simp
  then show ?case using 2 by simp
next
  case 3
  have "q_swap_loop h head head = Some h" by (subst q_swap_loop.simps) simp
  then show ?case using 3 by simp
qed

lemma q_swap_correct:
  assumes "ring h head ps"
  shows "\<exists>h'. q_swap h head = Some h' \<and> ring h' head (swap_pairs ps) \<and>
           val h' = val h \<and> cmem h' = cmem h \<and> live h' = live h \<and>
           (length ps \<le> 1 \<longrightarrow> h' = h)"
proof (cases "length ps \<le> 1")
  case True
  then have "list_empty h head \<or> list_is_singular h head"
    using ring_empty_iff[OF assms] ring_singular_iff[OF assms] by (cases ps) auto
  then have "q_swap h head = Some h" by (auto simp: q_swap_def)
  moreover have "swap_pairs ps = ps" using True by (cases ps rule: swap_pairs.cases) auto
  ultimately show ?thesis using assms by simp
next
  case False
  then have c: "\<not> list_empty h head" "\<not> list_is_singular h head" "head \<noteq> NULL"
    using ring_empty_iff[OF assms] ring_singular_iff[OF assms] assms by (auto simp: ring_def)
  from False obtain x xs where ps: "ps = x # xs" by (cases ps) auto
  then have n: "nxt h head = hd (ps @ [head])" using ring_nxt_head[of h head x xs] assms by simp
  have "ring h head ([] @ ps)" using assms by simp
  from q_swap_loop_correct[OF this] c n False show ?thesis by (auto simp: q_swap_def)
qed

lemma ring_nxt_idx:
  assumes "ring h head ps" "i < Suc (length ps)"
  shows "nxt h ((ps @ [head]) ! i) = (ps @ [head]) ! (Suc i mod Suc (length ps))"
proof (cases "i < length ps")
  case True
  have "ps = take i ps @ ps ! i # drop (Suc i) ps" using True by (simp add: id_take_nth_drop)
  then have "ring h head (take i ps @ ps ! i # drop (Suc i) ps)" using assms(1) by simp
  then have "nxt h (ps ! i) = hd (drop (Suc i) ps @ [head])" by (rule ring_nxt)
  also have "\<dots> = (ps @ [head]) ! Suc i"
    using True by (cases "Suc i < length ps") (auto simp: hd_drop_conv_nth nth_append)
  finally show ?thesis using True by (simp add: nth_append)
next
  case False
  then have i: "i = length ps" using assms(2) by simp
  have "nxt h head = hd (ps @ [head])"
    using assms(1) by (cases ps) (auto simp: ring_def)
  also have "\<dots> = (ps @ [head]) ! 0" by (cases ps) auto
  finally show ?thesis using i by simp
qed

lemma ring_cyc_distinct: "ring h head ps \<Longrightarrow> distinct (ps @ [head])"
  by (auto simp: ring_def)

lemma q_delete_mid_loop_correct:
  assumes r: "ring h head ps" and ne: "ps \<noteq> []" and k: "2 * k \<le> length ps"
  shows "q_delete_mid_loop h head ((ps @ [head]) ! k)
           ((ps @ [head]) ! (Suc (2 * k) mod Suc (length ps))) = Some (ps ! (length ps div 2))"
  using k
proof (induction "length ps div 2 - k" arbitrary: k)
  case 0
  then have kk: "k = length ps div 2" by linarith
  let ?n = "length ps"
  let ?c = "ps @ [head]"
  let ?f = "?c ! (Suc (2 * k) mod Suc ?n)"
  have d: "distinct ?c" by (rule ring_cyc_distinct[OF r])
  have "Suc (2 * k) = ?n \<or> Suc (2 * k) = Suc ?n" using kk by presburger
  then have "?f = head \<or> ?f = nxt h head"
  proof
    assume "Suc (2 * k) = ?n"
    then have "?f = ?c ! ?n" by simp
    then show ?thesis by simp
  next
    assume "Suc (2 * k) = Suc ?n"
    then have "?f = ?c ! 0" by simp
    moreover have "nxt h (?c ! ?n) = ?c ! 0" using ring_nxt_idx[OF r, of ?n] by simp
    ultimately show ?thesis by simp
  qed
  moreover have "?n div 2 < ?n" using ne by simp
  then have "?c ! k = ps ! (?n div 2)" using kk by (simp add: nth_append)
  ultimately show ?case by (subst q_delete_mid_loop.simps) auto
next
  case (Suc m)
  let ?n = "length ps"
  let ?c = "ps @ [head]"
  let ?j = "Suc (2 * k)"
  let ?f = "?c ! (?j mod Suc ?n)"
  have d: "distinct ?c" by (rule ring_cyc_distinct[OF r])
  have lt: "k < ?n div 2" using Suc(2) by linarith
  then have j: "?j < ?n" by presburger
  have f: "?f = ?c ! ?j" using j by simp
  have hn: "head = ?c ! ?n" by simp
  have ix: "?j < length ?c" "?n < length ?c" "0 < length ?c" "?j \<noteq> ?n" "?j \<noteq> 0"
    using j by auto
  have "?c ! ?j \<noteq> ?c ! ?n" using d ix nth_eq_iff_index_eq by blast
  then have c1: "?f \<noteq> head" using f by simp
  have "nxt h (?c ! ?n) = ?c ! 0" using ring_nxt_idx[OF r, of ?n] by simp
  moreover have "?c ! ?j \<noteq> ?c ! 0" using d ix nth_eq_iff_index_eq by blast
  ultimately have c2: "?f \<noteq> nxt h head" using f by simp
  have s: "nxt h (?c ! k) = ?c ! Suc k" using ring_nxt_idx[OF r, of k] j by simp
  have "nxt h ?f = ?c ! Suc ?j" using ring_nxt_idx[OF r, of ?j] j f by simp
  moreover have "nxt h (?c ! Suc ?j) = ?c ! (Suc (Suc ?j) mod Suc ?n)"
    using ring_nxt_idx[OF r, of "Suc ?j"] j by simp
  ultimately have ff: "nxt h (nxt h ?f) = ?c ! (Suc (2 * Suc k) mod Suc ?n)" by simp
  have "q_delete_mid_loop h head (?c ! Suc k) (?c ! (Suc (2 * Suc k) mod Suc ?n)) = Some (ps ! (?n div 2))"
    using Suc(2) lt by (intro Suc(1)) auto
  then show ?case
    using c1 c2 s ff by (subst q_delete_mid_loop.simps) simp
qed

lemma q_strings_frame:
  "val h' = val h \<Longrightarrow> cmem h' = cmem h \<Longrightarrow> q_strings h' ps = q_strings h ps"
  by (simp add: q_strings_def cstr_def)

lemma q_strings_append: "q_strings h (xs @ ys) = q_strings h xs @ q_strings h ys"
  by (simp add: q_strings_def)

lemma q_strings_take: "take k (q_strings h ps) = q_strings h (take k ps)"
  and q_strings_drop: "drop k (q_strings h ps) = q_strings h (drop k ps)"
  by (simp_all add: q_strings_def take_map drop_map)

lemma q_delete_mid_correct:
  assumes q: "queue h head ps" and n: "2 \<le> length ps"
  shows "\<exists>h'. q_delete_mid h head = Some (h', True) \<and>
           queue h' head (take (length ps div 2) ps @ drop (Suc (length ps div 2)) ps) \<and>
           nxt h' = nxt (list_del h (ps ! (length ps div 2))) \<and>
           prv h' = prv (list_del h (ps ! (length ps div 2))) \<and>
           val h' = val h \<and> cmem h' = cmem h \<and>
           live h' = live h - {ps ! (length ps div 2), val h (ps ! (length ps div 2))}"
proof -
  let ?k = "length ps div 2"
  let ?m = "ps ! ?k"
  have r: "ring h head ps" using q by (simp add: queue_def)
  have c: "\<not> list_empty h head" "\<not> list_is_singular h head" "head \<noteq> NULL"
    using ring_empty_iff[OF r] ring_singular_iff[OF r] r n by (auto simp: ring_def)
  have k: "?k < length ps" using n by simp
  have "nxt h head = (ps @ [head]) ! 0" using ring_nxt_idx[OF r, of "length ps"] by simp
  moreover have "nxt h ((ps @ [head]) ! 0) = (ps @ [head]) ! (Suc (2 * 0) mod Suc (length ps))"
    using ring_nxt_idx[OF r, of 0] by simp
  moreover have "q_delete_mid_loop h head ((ps @ [head]) ! 0)
           ((ps @ [head]) ! (Suc (2 * 0) mod Suc (length ps))) = Some ?m"
    by (rule q_delete_mid_loop_correct[OF r]) (use n in auto)
  ultimately have l: "q_delete_mid_loop h head (nxt h head) (nxt h (nxt h head)) = Some ?m"
    by simp
  let ?h' = "q_release_element (list_del h ?m) ?m"
  have e: "q_delete_mid h head = Some (?h', True)"
    using c l by (simp add: q_delete_mid_def)
  have ps: "ps = take ?k ps @ ?m # drop (Suc ?k) ps" using k by (simp add: id_take_nth_drop)
  have q': "queue h head (take ?k ps @ ?m # drop (Suc ?k) ps)" using q ps by simp
  then have "ring h head (take ?k ps @ ?m # drop (Suc ?k) ps)" by (simp add: queue_def)
  then have "ring (list_del h ?m) head (take ?k ps @ drop (Suc ?k) ps)" by (rule ring_list_del)
  then have r': "ring ?h' head (take ?k ps @ drop (Suc ?k) ps)"
    by (simp add: ring_def q_release_element_def)
  have "?m \<in> live h" "val h ?m \<in> live h" "NULL \<notin> live h"
    using q nth_mem[OF k] unfolding queue_def by auto
  then have mn: "?m \<noteq> NULL" "val h ?m \<noteq> NULL" by metis+
  have lv: "live ?h' = live h - {?m, val h ?m}"
    using mn by (auto simp: q_release_element_def)
  have "queue ?h' head (take ?k ps @ drop (Suc ?k) ps)"
    by (rule queue_del[OF q' r']) (auto simp: lv q_release_element_def)
  then show ?thesis using e lv by (simp add: q_release_element_def)
qed

lemma q_delete_mid_small:
  assumes "ring h head ps" "length ps \<le> 1"
  shows "q_delete_mid h head = Some (h, False)"
proof -
  have "list_empty h head \<or> list_is_singular h head"
    using ring_empty_iff[OF assms(1)] ring_singular_iff[OF assms(1)] assms(2) by (cases ps) auto
  then show ?thesis by (auto simp: q_delete_mid_def)
qed

lemma of_char_zero_iff: "(of_char c :: nat) = 0 \<longleftrightarrow> c = NUL"
proof -
  have "(of_char c :: nat) = of_char NUL \<longleftrightarrow> c = NUL" by (rule of_char_eq_iff)
  then show ?thesis by simp
qed

lemma cstring_nul_free: "NUL \<notin> set (cstring s)"
  by (induction s) (auto simp: cstring_def)

lemma strcmp_refl [simp]: "strcmp x x = 0"
  by (induction x) auto

lemma strcmp_swap: "strcmp y x = - strcmp x y"
  by (induction x y rule: strcmp.induct) auto

lemma strcmp_eq_0:
  "NUL \<notin> set x \<Longrightarrow> NUL \<notin> set y \<Longrightarrow> strcmp x y = 0 \<longleftrightarrow> x = y"
  by (induction x y rule: strcmp.induct) (auto simp: of_char_zero_iff)

lemma strcmp_trans:
  "NUL \<notin> set x \<Longrightarrow> NUL \<notin> set y \<Longrightarrow> NUL \<notin> set z \<Longrightarrow>
   strcmp x y \<le> 0 \<Longrightarrow> strcmp y z \<le> 0 \<Longrightarrow> strcmp x z \<le> 0"
proof (induction x arbitrary: y z)
  case Nil
  then show ?case by (cases z) auto
next
  case (Cons a xs)
  from Cons.prems obtain b ys where y: "y = b # ys"
    by (cases y) (auto simp: of_char_zero_iff)
  from Cons.prems y obtain c zs where z: "z = c # zs"
    by (cases z) (auto simp: of_char_zero_iff)
  show ?case
  proof (cases "a = b \<and> b = c")
    case True
    with Cons.prems y z have "strcmp xs zs \<le> 0"
      by (intro Cons.IH[of ys zs]) auto
    with True y z show ?thesis by simp
  next
    case False
    have "a \<noteq> b \<Longrightarrow> (of_char a :: nat) < of_char b"
      using Cons.prems(4) y by (auto simp: le_less)
    moreover have "b \<noteq> c \<Longrightarrow> (of_char b :: nat) < of_char c"
      using Cons.prems(5) y z by (auto simp: le_less)
    ultimately have "(of_char a :: nat) < of_char c" using False
      by (cases "a = b"; cases "b = c") auto
    then show ?thesis using z by auto
  qed
qed

lemma cmp_trans:
  "element_t_cmp h a b \<le> 0 \<Longrightarrow> element_t_cmp h b c \<le> 0 \<Longrightarrow> element_t_cmp h a c \<le> 0"
  unfolding element_t_cmp_def cstr_def
  by (rule strcmp_trans[OF cstring_nul_free cstring_nul_free cstring_nul_free])

lemma cmp_total: "\<not> element_t_cmp h a b \<le> 0 \<Longrightarrow> element_t_cmp h b a \<le> 0"
  unfolding element_t_cmp_def using strcmp_swap[of "cstr h (val h a)" "cstr h (val h b)"] by simp

lemma cmp_eq_0: "element_t_cmp h a b = 0 \<longleftrightarrow> cstr h (val h a) = cstr h (val h b)"
  unfolding element_t_cmp_def cstr_def
  by (rule strcmp_eq_0[OF cstring_nul_free cstring_nul_free])

lemma cmp_key_cong:
  "cstr h (val h b) = cstr h (val h b') \<Longrightarrow> element_t_cmp h a b = element_t_cmp h a b'"
  by (simp add: element_t_cmp_def)

lemma mset_merge_list: "mset (merge_list c xs ys) = mset xs + mset ys"
  by (induction c xs ys rule: merge_list.induct) auto

lemma set_merge_list: "set (merge_list c xs ys) = set xs \<union> set ys"
  by (induction c xs ys rule: merge_list.induct) auto

lemma sorted_merge_list:
  assumes "sorted_wrt (\<lambda>a b. element_t_cmp h a b \<le> 0) xs"
    and "sorted_wrt (\<lambda>a b. element_t_cmp h a b \<le> 0) ys"
  shows "sorted_wrt (\<lambda>a b. element_t_cmp h a b \<le> 0) (merge_list (element_t_cmp h) xs ys)"
  using assms
proof (induction "element_t_cmp h" xs ys rule: merge_list.induct)
  case (3 x xs y ys)
  show ?case
  proof (cases "element_t_cmp h x y \<le> 0")
    case True
    have "element_t_cmp h x z \<le> 0" if "z \<in> set (y # ys)" for z
      using that True 3(4) cmp_trans[of h x y z] by auto
    with True 3 show ?thesis by (auto simp: set_merge_list)
  next
    case False
    then have yx: "element_t_cmp h y x \<le> 0" by (rule cmp_total)
    have "element_t_cmp h y z \<le> 0" if "z \<in> set (x # xs)" for z
      using that yx 3(3) cmp_trans[of h y x z] by auto
    with False 3 show ?thesis by (auto simp: set_merge_list)
  qed
qed auto

lemma filter_merge_list:
  assumes "sorted_wrt (\<lambda>a b. element_t_cmp h a b \<le> 0) xs"
    and "sorted_wrt (\<lambda>a b. element_t_cmp h a b \<le> 0) ys"
  shows "filter (\<lambda>p. cstr h (val h p) = s) (merge_list (element_t_cmp h) xs ys) =
         filter (\<lambda>p. cstr h (val h p) = s) xs @ filter (\<lambda>p. cstr h (val h p) = s) ys"
  using assms
proof (induction "element_t_cmp h" xs ys rule: merge_list.induct)
  case (3 x xs y ys)
  show ?case
  proof (cases "element_t_cmp h x y \<le> 0")
    case True
    with 3 show ?thesis by auto
  next
    case False
    have n: "cstr h (val h z) \<noteq> cstr h (val h y)" if "z \<in> set (x # xs)" for z
    proof
      assume e: "cstr h (val h z) = cstr h (val h y)"
      have "element_t_cmp h x z \<le> 0"
        using that 3(3) by (auto simp: element_t_cmp_def)
      then have "element_t_cmp h x y \<le> 0" using cmp_key_cong[OF e, of x] by simp
      with False show False by simp
    qed
    have "filter (\<lambda>p. cstr h (val h p) = s) (x # xs) = []" if "cstr h (val h y) = s"
      using n that by (auto simp: filter_empty_conv)
    with False 3 show ?thesis by auto
  qed
qed auto

lemma is_stable_sort_merge:
  assumes "is_stable_sort h l l'" "is_stable_sort h r r'"
  shows "is_stable_sort h (l @ r) (merge_list (element_t_cmp h) l' r')"
  using assms unfolding is_stable_sort_def
  by (auto simp: sorted_merge_list filter_merge_list mset_merge_list)

lemma is_stable_sort_single [simp]: "is_stable_sort h [x] [x]"
  by (simp add: is_stable_sort_def)

lemma is_stable_sort_frame:
  "val h' = val h \<Longrightarrow> cmem h' = cmem h \<Longrightarrow> is_stable_sort h' xs ys = is_stable_sort h xs ys"
  by (simp add: is_stable_sort_def element_t_cmp_def cstr_def)

lemma nxt_store_link:
  "nxt (fst (store_link (h, hv) tail a)) z = (if z \<in> link_nodes tail then a else nxt h z)"
  by (cases tail) auto

lemma snd_store_link: "snd (store_link (h, hv) tail a) = (if tail = Head_var then a else hv)"
  by (cases tail) auto

lemma load_store_link [simp]: "load_link (store_link (h, hv) tail a) tail = a"
  by (cases tail) auto

lemma frame_store_link [simp]:
  "prv (fst (store_link (h, hv) tail a)) = prv h"
  "val (fst (store_link (h, hv) tail a)) = val h"
  "cmem (fst (store_link (h, hv) tail a)) = cmem h"
  "live (fst (store_link (h, hv) tail a)) = live h"
  by (cases tail; simp)+

lemma load_link_eq:
  "load_link (h, hv) tail = (case tail of Head_var \<Rightarrow> hv | Next_field t \<Rightarrow> nxt h t)"
  by (cases tail) auto

lemma element_t_cmp_frame:
  "val h' = val h \<Longrightarrow> cmem h' = cmem h \<Longrightarrow> element_t_cmp h' = element_t_cmp h"
  by (intro ext) (simp add: element_t_cmp_def cstr_def)

lemma path_hd: "path f p xs q \<Longrightarrow> xs \<noteq> [] \<Longrightarrow> p = hd xs"
  by (cases xs) auto

lemma path_first_nxt: "path f p (x # xs) q \<Longrightarrow> f x = hd (xs @ [q])"
  by (cases xs) auto

lemma path_tl: "path f p (x # xs) q \<Longrightarrow> path f (f x) xs q"
  by simp

text \<open>One turn of the loop that takes the node \<open>x\<close>: the state after the three
  assignments.\<close>

lemma merge_take:
  assumes st1: "st1 = store_link (h, hv) tail x"
    and x: "x \<notin> link_nodes tail"
  shows "load_link st1 tail = x" "nxt (fst st1) x = nxt h x"
    "\<And>z. nxt (fst st1) z = (if z \<in> link_nodes tail then x else nxt h z)"
    "prv (fst st1) = prv h" "val (fst st1) = val h" "cmem (fst st1) = cmem h" "live (fst st1) = live h"
    "snd st1 = (if tail = Head_var then x else hv)"
    "element_t_cmp (fst st1) = element_t_cmp h"
proof -
  show "load_link st1 tail = x" "nxt (fst st1) x = nxt h x"
    "\<And>z. nxt (fst st1) z = (if z \<in> link_nodes tail then x else nxt h z)"
    "prv (fst st1) = prv h" "val (fst st1) = val h" "cmem (fst st1) = cmem h" "live (fst st1) = live h"
    "snd st1 = (if tail = Head_var then x else hv)"
    using x unfolding st1 by (simp_all add: nxt_store_link snd_store_link)
  then show "element_t_cmp (fst st1) = element_t_cmp h"
    by (intro element_t_cmp_frame)
qed

lemma merge_finish:
  assumes p: "path (nxt h) y ys NULL" and d: "x \<notin> set ys" "link_nodes tail \<inter> set (x # ys) = {}"
    and st1: "st1 = store_link (h, hv) tail x"
    and st2: "st2 = store_link st1 (Next_field x) y"
  shows "path (nxt (fst st2)) (load_link st2 tail) (x # ys) NULL"
    and "tail \<noteq> Head_var \<Longrightarrow> snd st2 = hv"
    and "\<And>z. z \<noteq> x \<Longrightarrow> z \<notin> link_nodes tail \<Longrightarrow> nxt (fst st2) z = nxt h z"
    and "prv (fst st2) = prv h" "val (fst st2) = val h" "cmem (fst st2) = cmem h" "live (fst st2) = live h"
proof -
  obtain h1 hv1 where s1: "st1 = (h1, hv1)" by (cases st1)
  have x: "x \<notin> link_nodes tail" using d by auto
  note t = merge_take[OF st1 x]
  have s2: "st2 = (set_next h1 x y, hv1)" using st2 s1 by simp
  have h2: "fst st2 = set_next h1 x y" "snd st2 = hv1" using s2 by simp_all
  have n1: "nxt h1 z = (if z \<in> link_nodes tail then x else nxt h z)" for z
    using t(3)[of z] s1 by simp
  have n2: "nxt (fst st2) z = (if z = x then y else if z \<in> link_nodes tail then x else nxt h z)" for z
    using n1 h2 by simp
  have "path (nxt (fst st2)) y ys NULL = path (nxt h) y ys NULL"
    by (rule path_cong) (use d n2 in auto)
  then have py: "path (nxt (fst st2)) y ys NULL" using p by simp
  have hv1: "hv1 = (if tail = Head_var then x else hv)" using t(8) s1 by simp
  have "load_link st2 tail = x"
  proof (cases tail)
    case Head_var
    then show ?thesis using hv1 s2 by simp
  next
    case (Next_field u)
    then have "u \<noteq> x" using x by auto
    then show ?thesis using Next_field s2 n1[of u] by simp
  qed
  then show "path (nxt (fst st2)) (load_link st2 tail) (x # ys) NULL"
    using py n2 by simp
  show "tail \<noteq> Head_var \<Longrightarrow> snd st2 = hv" using t(8) s1 h2 by simp
  show "\<And>z. z \<noteq> x \<Longrightarrow> z \<notin> link_nodes tail \<Longrightarrow> nxt (fst st2) z = nxt h z" using n2 by simp
  show "prv (fst st2) = prv h" "val (fst st2) = val h" "cmem (fst st2) = cmem h" "live (fst st2) = live h"
    using t s1 h2 by simp_all
qed

lemma merge_loop_correct:
  assumes "path (nxt h) a as NULL" "path (nxt h) b bs NULL" "as \<noteq> []" "bs \<noteq> []"
    "distinct (as @ bs)" "NULL \<notin> set (as @ bs)" "link_nodes tail \<inter> set (as @ bs) = {}"
  shows "\<exists>h' hv'. merge_loop element_t_cmp (h, hv) tail a b = Some (h', hv') \<and>
     path (nxt h') (load_link (h', hv') tail) (merge_list (element_t_cmp h) as bs) NULL \<and>
     (tail \<noteq> Head_var \<longrightarrow> hv' = hv) \<and>
     (\<forall>z. z \<notin> set (as @ bs) \<and> z \<notin> link_nodes tail \<longrightarrow> nxt h' z = nxt h z) \<and>
     prv h' = prv h \<and> val h' = val h \<and> cmem h' = cmem h \<and> live h' = live h"
  using assms
proof (induction "length as + length bs" arbitrary: h hv tail a b as bs rule: less_induct)
  case less
  obtain x xs where as: "as = x # xs" using less.prems(3) by (cases as) auto
  obtain y ys where bs: "bs = y # ys" using less.prems(4) by (cases bs) auto
  have a: "a = x" and b: "b = y" using less.prems(1,2) as bs by auto
  have pa: "path (nxt h) x (x # xs) NULL" and pb: "path (nxt h) y (y # ys) NULL"
    using less.prems(1,2) as bs a b by auto
  have xl: "x \<notin> link_nodes tail" and yl: "y \<notin> link_nodes tail"
    using less.prems(7) as bs by auto
  show ?case
  proof (cases "element_t_cmp h x y \<le> 0")
    case True
    define st1 where "st1 = store_link (h, hv) tail x"
    note t = merge_take[OF st1_def xl]
    have ml: "merge_list (element_t_cmp h) as bs = x # merge_list (element_t_cmp h) xs bs"
      using True as bs by simp
    show ?thesis
    proof (cases xs)
      case Nil
      have nx: "nxt h x = NULL" using pa Nil by simp
      define st2 where "st2 = store_link st1 (Next_field x) y"
      have d: "x \<notin> set (y # ys)" "link_nodes tail \<inter> set (x # y # ys) = {}"
        using less.prems(5,7) as bs by auto
      note f = merge_finish[OF pb d st1_def st2_def]
      have "merge_loop element_t_cmp (h, hv) tail x y = Some st2"
        using True nx t(1,2) unfolding st2_def st1_def
        by (subst merge_loop.simps) simp
      moreover have "merge_list (element_t_cmp h) as bs = x # y # ys"
        using ml Nil bs by simp
      ultimately have "merge_loop element_t_cmp (h, hv) tail a b = Some (fst st2, snd st2) \<and>
         path (nxt (fst st2)) (load_link (fst st2, snd st2) tail) (merge_list (element_t_cmp h) as bs) NULL \<and>
         (tail \<noteq> Head_var \<longrightarrow> snd st2 = hv) \<and>
         (\<forall>z. z \<notin> set (as @ bs) \<and> z \<notin> link_nodes tail \<longrightarrow> nxt (fst st2) z = nxt h z) \<and>
         prv (fst st2) = prv h \<and> val (fst st2) = val h \<and> cmem (fst st2) = cmem h \<and>
         live (fst st2) = live h"
        using f a b as by simp
      then show ?thesis by blast
    next
      case (Cons x2 xs')
      have nx: "nxt h x = x2" "x2 \<noteq> NULL" using pa Cons less.prems(6) as by auto
      obtain h1 hv1 where s1: "st1 = (h1, hv1)" by (cases st1)
      have n1: "nxt h1 z = (if z \<in> link_nodes tail then x else nxt h z)" for z
        using t(3)[of z] s1 by simp
      have fr1: "prv h1 = prv h" "val h1 = val h" "cmem h1 = cmem h" "live h1 = live h"
        "element_t_cmp h1 = element_t_cmp h" "hv1 = (if tail = Head_var then x else hv)"
        using t s1 by simp_all
      have "path (nxt h1) x2 xs NULL = path (nxt h) x2 xs NULL"
        by (rule path_cong) (use n1 less.prems(7) as in auto)
      then have p1: "path (nxt h1) x2 xs NULL" using pa nx by simp
      have "path (nxt h1) y bs NULL = path (nxt h) y bs NULL"
        by (rule path_cong) (use n1 less.prems(7) in auto)
      then have p2: "path (nxt h1) y bs NULL" using pb bs by simp
      have len: "length xs + length bs < length as + length bs" using as by simp
      have c: "xs \<noteq> []" "distinct (xs @ bs)" "NULL \<notin> set (xs @ bs)"
        "link_nodes (Next_field x) \<inter> set (xs @ bs) = {}"
        using Cons less.prems(5,6) as by auto
      from less.hyps[OF len p1 p2 c(1) less.prems(4) c(2,3,4), of hv1]
      obtain h' hv' where r:
        "merge_loop element_t_cmp (h1, hv1) (Next_field x) x2 y = Some (h', hv')"
        "path (nxt h') (nxt h' x) (merge_list (element_t_cmp h1) xs bs) NULL"
        "hv' = hv1"
        "\<forall>z. z \<notin> set (xs @ bs) \<and> z \<noteq> x \<longrightarrow> nxt h' z = nxt h1 z"
        "prv h' = prv h1" "val h' = val h1" "cmem h' = cmem h1" "live h' = live h1"
        by auto
      have e: "merge_loop element_t_cmp (h, hv) tail x y = Some (h', hv')"
        using True nx t(1,2) r(1) s1 unfolding st1_def
        by (subst merge_loop.simps) simp
      have ll: "load_link (h', hv') tail = x"
      proof (cases tail)
        case Head_var
        then show ?thesis using r(3) fr1(6) by simp
      next
        case (Next_field u)
        then have "u \<notin> set (xs @ bs)" "u \<noteq> x" using less.prems(7) as by auto
        then have "nxt h' u = nxt h1 u" using r(4) by simp
        then show ?thesis using Next_field n1[of u] by simp
      qed
      have pp: "path (nxt h') (load_link (h', hv') tail) (merge_list (element_t_cmp h) as bs) NULL"
        using ll ml r(2) fr1(5) by simp
      have fz: "nxt h' z = nxt h z" if "z \<notin> set (as @ bs)" "z \<notin> link_nodes tail" for z
      proof -
        have "nxt h' z = nxt h1 z" using that r(4) as by simp
        then show ?thesis using n1[of z] that by simp
      qed
      have "tail \<noteq> Head_var \<longrightarrow> hv' = hv" using r(3) fr1(6) by simp
      then show ?thesis using e pp fz r(5-8) fr1(1-4) a b by auto
    qed
  next
    case False
    define st1 where "st1 = store_link (h, hv) tail y"
    note t = merge_take[OF st1_def yl]
    have ml: "merge_list (element_t_cmp h) as bs = y # merge_list (element_t_cmp h) as ys"
      using False as bs by simp
    show ?thesis
    proof (cases ys)
      case Nil
      have ny: "nxt h y = NULL" using pb Nil by simp
      define st2 where "st2 = store_link st1 (Next_field y) x"
      have d: "y \<notin> set (x # xs)" "link_nodes tail \<inter> set (y # x # xs) = {}"
        using less.prems(5,7) as bs by auto
      note f = merge_finish[OF pa d st1_def st2_def]
      have "merge_loop element_t_cmp (h, hv) tail x y = Some st2"
        using False ny t(1,2) unfolding st2_def st1_def
        by (subst merge_loop.simps) simp
      moreover have "merge_list (element_t_cmp h) as bs = y # x # xs"
        using ml Nil as by simp
      ultimately have "merge_loop element_t_cmp (h, hv) tail a b = Some (fst st2, snd st2) \<and>
         path (nxt (fst st2)) (load_link (fst st2, snd st2) tail) (merge_list (element_t_cmp h) as bs) NULL \<and>
         (tail \<noteq> Head_var \<longrightarrow> snd st2 = hv) \<and>
         (\<forall>z. z \<notin> set (as @ bs) \<and> z \<notin> link_nodes tail \<longrightarrow> nxt (fst st2) z = nxt h z) \<and>
         prv (fst st2) = prv h \<and> val (fst st2) = val h \<and> cmem (fst st2) = cmem h \<and>
         live (fst st2) = live h"
        using f a b bs by simp
      then show ?thesis by blast
    next
      case (Cons y2 ys')
      have ny: "nxt h y = y2" "y2 \<noteq> NULL" using pb Cons less.prems(6) bs by auto
      obtain h1 hv1 where s1: "st1 = (h1, hv1)" by (cases st1)
      have n1: "nxt h1 z = (if z \<in> link_nodes tail then y else nxt h z)" for z
        using t(3)[of z] s1 by simp
      have fr1: "prv h1 = prv h" "val h1 = val h" "cmem h1 = cmem h" "live h1 = live h"
        "element_t_cmp h1 = element_t_cmp h" "hv1 = (if tail = Head_var then y else hv)"
        using t s1 by simp_all
      have "path (nxt h1) y2 ys NULL = path (nxt h) y2 ys NULL"
        by (rule path_cong) (use n1 less.prems(7) bs in auto)
      then have p2: "path (nxt h1) y2 ys NULL" using pb ny by simp
      have "path (nxt h1) x as NULL = path (nxt h) x as NULL"
        by (rule path_cong) (use n1 less.prems(7) in auto)
      then have p1: "path (nxt h1) x as NULL" using pa as by simp
      have len: "length as + length ys < length as + length bs" using bs by simp
      have c: "ys \<noteq> []" "distinct (as @ ys)" "NULL \<notin> set (as @ ys)"
        "link_nodes (Next_field y) \<inter> set (as @ ys) = {}"
        using Cons less.prems(5,6) bs by auto
      from less.hyps[OF len p1 p2 less.prems(3) c(1) c(2,3,4), of hv1]
      obtain h' hv' where r:
        "merge_loop element_t_cmp (h1, hv1) (Next_field y) x y2 = Some (h', hv')"
        "path (nxt h') (nxt h' y) (merge_list (element_t_cmp h1) as ys) NULL"
        "hv' = hv1"
        "\<forall>z. z \<notin> set (as @ ys) \<and> z \<noteq> y \<longrightarrow> nxt h' z = nxt h1 z"
        "prv h' = prv h1" "val h' = val h1" "cmem h' = cmem h1" "live h' = live h1"
        by auto
      have e: "merge_loop element_t_cmp (h, hv) tail x y = Some (h', hv')"
        using False ny t(1,2) r(1) s1 unfolding st1_def
        by (subst merge_loop.simps) simp
      have ll: "load_link (h', hv') tail = y"
      proof (cases tail)
        case Head_var
        then show ?thesis using r(3) fr1(6) by simp
      next
        case (Next_field u)
        then have "u \<notin> set (as @ ys)" "u \<noteq> y" using less.prems(7) bs by auto
        then have "nxt h' u = nxt h1 u" using r(4) by simp
        then show ?thesis using Next_field n1[of u] by simp
      qed
      have pp: "path (nxt h') (load_link (h', hv') tail) (merge_list (element_t_cmp h) as bs) NULL"
        using ll ml r(2) fr1(5) by simp
      have fz: "nxt h' z = nxt h z" if "z \<notin> set (as @ bs)" "z \<notin> link_nodes tail" for z
      proof -
        have "nxt h' z = nxt h1 z" using that r(4) bs by simp
        then show ?thesis using n1[of z] that by simp
      qed
      have "tail \<noteq> Head_var \<longrightarrow> hv' = hv" using r(3) fr1(6) by simp
      then show ?thesis using e pp fz r(5-8) fr1(1-4) a b by auto
    qed
  qed
qed

lemma merge_correct:
  assumes "path (nxt h) a as NULL" "path (nxt h) b bs NULL" "as \<noteq> []" "bs \<noteq> []"
    "distinct (as @ bs)" "NULL \<notin> set (as @ bs)"
  shows "\<exists>h' r. merge element_t_cmp h a b = Some (h', r) \<and>
     path (nxt h') r (merge_list (element_t_cmp h) as bs) NULL \<and>
     (\<forall>z. z \<notin> set (as @ bs) \<longrightarrow> nxt h' z = nxt h z) \<and>
     prv h' = prv h \<and> val h' = val h \<and> cmem h' = cmem h \<and> live h' = live h"
  using merge_loop_correct[OF assms, of Head_var NULL] by (auto simp: merge_def)

lemma path_nxt_idx:
  "path f p xs q \<Longrightarrow> i < length xs \<Longrightarrow> f (xs ! i) = (xs @ [q]) ! Suc i"
proof (induction xs arbitrary: p i)
  case Nil
  then show ?case by simp
next
  case (Cons x xs)
  show ?case
  proof (cases i)
    case 0
    with Cons.prems show ?thesis by (cases xs) auto
  next
    case (Suc j)
    with Cons show ?thesis by auto
  qed
qed

lemma merge_sort_loop_correct:
  assumes p: "path (nxt h) p xs NULL" and nn: "NULL \<notin> set xs" and k: "2 * k + 2 \<le> length xs"
  shows "merge_sort_loop h (xs ! Suc k) ((xs @ [NULL]) ! (2 * k + 2)) = Some (xs ! (length xs div 2))"
  using k
proof (induction "length xs div 2 - Suc k" arbitrary: k)
  case 0
  let ?n = "length xs"
  let ?f = "(xs @ [NULL]) ! (2 * k + 2)"
  have kk: "Suc k = ?n div 2" using 0 by linarith
  have "2 * k + 2 = ?n \<or> 2 * k + 3 = ?n" using kk by presburger
  then have "?f = NULL \<or> nxt h ?f = NULL"
  proof
    assume "2 * k + 2 = ?n"
    then have "?f = (xs @ [NULL]) ! ?n" by simp
    then show ?thesis by simp
  next
    assume e: "2 * k + 3 = ?n"
    then have lt: "2 * k + 2 < ?n" by simp
    then have "?f = xs ! (2 * k + 2)" by (simp add: nth_append)
    moreover have "nxt h (xs ! (2 * k + 2)) = (xs @ [NULL]) ! Suc (2 * k + 2)"
      by (rule path_nxt_idx[OF p lt])
    moreover have "Suc (2 * k + 2) = ?n" using e by simp
    ultimately show ?thesis by simp
  qed
  then show ?case using kk by (subst merge_sort_loop.simps) auto
next
  case (Suc m)
  let ?n = "length xs"
  let ?f = "(xs @ [NULL]) ! (2 * k + 2)"
  have lt: "Suc k < ?n div 2" using Suc(2) by linarith
  then have j: "2 * k + 4 \<le> ?n" by presburger
  have i2: "2 * k + 2 < ?n" and i3: "2 * k + 3 < ?n" and i1: "Suc k < ?n" using j by simp_all
  have f: "?f = xs ! (2 * k + 2)" using i2 by (simp add: nth_append)
  have c1: "?f \<noteq> NULL" using f nn nth_mem[OF i2] by metis
  have e3: "Suc (2 * k + 2) = 2 * k + 3" by simp
  have "nxt h (xs ! (2 * k + 2)) = (xs @ [NULL]) ! (2 * k + 3)"
    using path_nxt_idx[OF p i2] unfolding e3 .
  moreover have "(xs @ [NULL]) ! (2 * k + 3) = xs ! (2 * k + 3)"
    using i3 by (simp add: nth_append)
  ultimately have nf: "nxt h ?f = xs ! (2 * k + 3)" using f by metis
  have c2: "nxt h ?f \<noteq> NULL" using nf nn nth_mem[OF i3] by metis
  have e4: "Suc (2 * k + 3) = 2 * Suc k + 2" by simp
  have "nxt h (xs ! (2 * k + 3)) = (xs @ [NULL]) ! (2 * Suc k + 2)"
    using path_nxt_idx[OF p i3] unfolding e4 .
  then have ff: "nxt h (nxt h ?f) = (xs @ [NULL]) ! (2 * Suc k + 2)" using nf by metis
  have "nxt h (xs ! Suc k) = (xs @ [NULL]) ! Suc (Suc k)" by (rule path_nxt_idx[OF p i1])
  then have s: "nxt h (xs ! Suc k) = xs ! Suc (Suc k)" using j by (simp add: nth_append)
  have "merge_sort_loop h (xs ! Suc (Suc k)) ((xs @ [NULL]) ! (2 * Suc k + 2)) = Some (xs ! (?n div 2))"
    using Suc(2) j by (intro Suc(1)) auto
  then show ?case using c1 c2 s ff by (subst merge_sort_loop.simps) simp
qed

lemma path_split_cut:
  assumes "path f p (l @ r) NULL" "l \<noteq> []" "r \<noteq> []" "distinct (l @ r)"
  shows "path (f(last l := NULL)) p l NULL" "path (f(last l := NULL)) (hd r) r NULL"
proof -
  obtain l' x where l: "l = l' @ [x]" using assms(2) by (cases l rule: rev_cases) auto
  obtain m where m: "path f p l' x" "f x = m" "path f m r NULL"
    using assms(1) l by (auto simp: path_append)
  have hm: "m = hd r" using m(3) assms(3) by (rule path_hd)
  have "x \<notin> set l'" "x \<notin> set r" using assms(4) l by auto
  then have "path (f(x := NULL)) p l' x" "path (f(x := NULL)) m r NULL"
    using m by (simp_all add: path_upd)
  then show "path (f(last l := NULL)) p l NULL" "path (f(last l := NULL)) (hd r) r NULL"
    using l hm by (simp_all add: path_append)
qed

lemma pchain_take: "pchain pv xs \<Longrightarrow> pchain pv (take m xs)"
  by (auto simp: pchain_def)

lemma pchain_drop: "pchain pv xs \<Longrightarrow> pchain pv (drop m xs)"
proof -
  assume a: "pchain pv xs"
  have "pv (drop m xs ! Suc i) = drop m xs ! i" if "Suc i < length (drop m xs)" for i
  proof -
    have "Suc (m + i) < length xs" using that by simp
    then have "pv (xs ! Suc (m + i)) = xs ! (m + i)" using a by (simp add: pchain_def)
    then show ?thesis using that by (simp add: add.commute)
  qed
  then show ?thesis by (simp add: pchain_def)
qed

lemma mset_nonempty: "mset ys = mset xs \<Longrightarrow> xs \<noteq> [] \<Longrightarrow> ys \<noteq> []"
  by auto

lemma last_take_nth: "0 < m \<Longrightarrow> m \<le> length xs \<Longrightarrow> last (take m xs) = xs ! (m - 1)"
proof -
  assume a: "0 < m" "m \<le> length xs"
  then have "take m xs \<noteq> []" by auto
  then have "last (take m xs) = take m xs ! (length (take m xs) - 1)" by (rule last_conv_nth)
  then show ?thesis using a by simp
qed

lemma merge_sort_correct:
  assumes "path (nxt h) p xs NULL" "xs \<noteq> []" "distinct xs" "NULL \<notin> set xs" "pchain (prv h) xs"
  shows "\<exists>h' r ys. merge_sort h p element_t_cmp = Some (h', r) \<and>
     path (nxt h') r ys NULL \<and> is_stable_sort h xs ys \<and>
     (\<forall>z. z \<notin> set xs \<longrightarrow> nxt h' z = nxt h z) \<and>
     prv h' = prv h \<and> val h' = val h \<and> cmem h' = cmem h \<and> live h' = live h"
  using assms
proof (induction "length xs" arbitrary: h p xs rule: less_induct)
  case less
  let ?n = "length xs"
  have p0: "p = xs ! 0" using path_hd[OF less.prems(1,2)] less.prems(2) by (simp add: hd_conv_nth)
  show ?case
  proof (cases "?n = 1")
    case True
    then have xs: "xs = [p]" using p0 by (cases xs) auto
    then have "nxt h p = NULL" using less.prems(1) by simp
    then have "merge_sort h p element_t_cmp = Some (h, p)"
      by (subst merge_sort.simps) simp
    then show ?thesis using xs less.prems(1) by (intro exI[of _ h] exI[of _ p] exI[of _ "[p]"]) simp
  next
    case False
    moreover have "?n \<noteq> 0" using less.prems(2) by simp
    ultimately have n2: "2 \<le> ?n" by linarith
    let ?m = "?n div 2"
    let ?l = "take ?m xs"
    let ?r = "drop ?m xs"
    let ?s = "xs ! ?m"
    have m: "0 < ?m" "?m < ?n" using n2 by auto
    have lr: "xs = ?l @ ?r" by simp
    have lne: "?l \<noteq> []" and rne: "?r \<noteq> []" using m by auto
    have i0: "0 < ?n" and i1: "1 < ?n" using n2 by auto
    have np: "nxt h p = xs ! 1"
      using path_nxt_idx[OF less.prems(1) i0] p0 i1 by (simp add: nth_append)
    have npn: "nxt h p \<noteq> NULL" using np less.prems(4) nth_mem[OF i1] by metis
    have "nxt h (xs ! 1) = (xs @ [NULL]) ! Suc 1" by (rule path_nxt_idx[OF less.prems(1) i1])
    then have nnp: "nxt h (nxt h p) = (xs @ [NULL]) ! (2 * 0 + 2)" using np by simp
    have "merge_sort_loop h (xs ! Suc 0) ((xs @ [NULL]) ! (2 * 0 + 2)) = Some ?s"
      by (rule merge_sort_loop_correct[OF less.prems(1,4)]) (use n2 in simp)
    then have loop: "merge_sort_loop h (nxt h p) (nxt h (nxt h p)) = Some ?s"
      using np nnp by simp
    have "Suc (?m - 1) < ?n" using m by simp
    then have "prv h (xs ! Suc (?m - 1)) = xs ! (?m - 1)"
      using less.prems(5) unfolding pchain_def by blast
    moreover have "last ?l = xs ! (?m - 1)" using m by (intro last_take_nth) simp_all
    ultimately have ps: "prv h ?s = last ?l" using m by simp
    have hs: "hd ?r = ?s" using m by (simp add: hd_drop_conv_nth)
    define h1 where "h1 = set_next h (prv h ?s) NULL"
    have n1: "nxt h1 = (nxt h)(last ?l := NULL)" unfolding h1_def ps by simp
    have fr1: "prv h1 = prv h" "val h1 = val h" "cmem h1 = cmem h" "live h1 = live h"
      unfolding h1_def by simp_all
    have pl: "path (nxt h) p (?l @ ?r) NULL" and dl: "distinct (?l @ ?r)"
      using less.prems(1,3) by simp_all
    have p1l: "path (nxt h1) p ?l NULL" and p1r: "path (nxt h1) ?s ?r NULL"
      using path_split_cut[OF pl lne rne dl] hs unfolding n1 by simp_all
    have dis: "set ?l \<inter> set ?r = {}" using dl by (simp only: distinct_append)
    have sub: "set ?l \<subseteq> set xs" "set ?r \<subseteq> set xs"
      by (auto dest: in_set_takeD in_set_dropD)
    have cl: "distinct ?l" "NULL \<notin> set ?l" "pchain (prv h1) ?l" "length ?l < ?n"
      using less.prems(3,4,5) sub m fr1 by (auto simp: pchain_take)
    have cr: "distinct ?r" "NULL \<notin> set ?r" "length ?r < ?n"
      using less.prems(3,4) sub m by auto
    from less.hyps[OF cl(4) p1l lne cl(1,2,3)]
    obtain h2 lp ysl where L:
      "merge_sort h1 p element_t_cmp = Some (h2, lp)" "path (nxt h2) lp ysl NULL"
      "is_stable_sort h1 ?l ysl" "\<forall>z. z \<notin> set ?l \<longrightarrow> nxt h2 z = nxt h1 z"
      "prv h2 = prv h1" "val h2 = val h1" "cmem h2 = cmem h1" "live h2 = live h1"
      by blast
    have "path (nxt h2) ?s ?r NULL = path (nxt h1) ?s ?r NULL"
      by (rule path_cong) (use L(4) dis in auto)
    then have p2r: "path (nxt h2) ?s ?r NULL" using p1r by simp
    have pc2: "pchain (prv h2) ?r" using less.prems(5) L(5) fr1 by (simp add: pchain_drop)
    from less.hyps[OF cr(3) p2r rne cr(1,2) pc2]
    obtain h3 rp ysr where R:
      "merge_sort h2 ?s element_t_cmp = Some (h3, rp)" "path (nxt h3) rp ysr NULL"
      "is_stable_sort h2 ?r ysr" "\<forall>z. z \<notin> set ?r \<longrightarrow> nxt h3 z = nxt h2 z"
      "prv h3 = prv h2" "val h3 = val h2" "cmem h3 = cmem h2" "live h3 = live h2"
      by blast
    have v2: "val h2 = val h" "cmem h2 = cmem h" using L(6,7) fr1 by simp_all
    have sl: "is_stable_sort h ?l ysl" using L(3) is_stable_sort_frame[OF fr1(2,3)] by simp
    have sr: "is_stable_sort h ?r ysr" using R(3) is_stable_sort_frame[OF v2] by simp
    have ml: "mset ysl = mset ?l" and mr: "mset ysr = mset ?r"
      using sl sr by (simp_all add: is_stable_sort_def)
    have setl: "set ysl = set ?l" and setr: "set ysr = set ?r"
      using ml mr by (auto dest: mset_eq_setD)
    have "path (nxt h3) lp ysl NULL = path (nxt h2) lp ysl NULL"
      by (rule path_cong) (use R(4) dis setl in auto)
    then have p3l: "path (nxt h3) lp ysl NULL" using L(2) by simp
    have "mset (ysl @ ysr) = mset xs" using ml mr by (metis lr mset_append)
    then have dm: "distinct (ysl @ ysr)" "NULL \<notin> set (ysl @ ysr)"
      using less.prems(3,4) mset_eq_imp_distinct_iff mset_eq_setD by metis+
    have yne: "ysl \<noteq> []" "ysr \<noteq> []"
      using mset_nonempty[OF ml lne] mset_nonempty[OF mr rne] by simp_all
    from merge_correct[OF p3l R(2) yne dm]
    obtain h4 r4 where M:
      "merge element_t_cmp h3 lp rp = Some (h4, r4)"
      "path (nxt h4) r4 (merge_list (element_t_cmp h3) ysl ysr) NULL"
      "\<forall>z. z \<notin> set (ysl @ ysr) \<longrightarrow> nxt h4 z = nxt h3 z"
      "prv h4 = prv h3" "val h4 = val h3" "cmem h4 = cmem h3" "live h4 = live h3"
      by blast
    have c3: "element_t_cmp h3 = element_t_cmp h"
      by (rule element_t_cmp_frame) (simp_all add: R(6,7) L(6,7) fr1)
    have st: "is_stable_sort h xs (merge_list (element_t_cmp h) ysl ysr)"
      using is_stable_sort_merge[OF sl sr] by simp
    have fz: "nxt h4 z = nxt h z" if z: "z \<notin> set xs" for z
    proof -
      have zl: "z \<notin> set ?l" "z \<notin> set ?r" using z sub by auto
      then have "z \<notin> set (ysl @ ysr)" using setl setr by simp
      then have "nxt h4 z = nxt h3 z" using M(3) by simp
      also have "\<dots> = nxt h2 z" using R(4) zl by simp
      also have "\<dots> = nxt h1 z" using L(4) zl by simp
      also have "\<dots> = nxt h z"
      proof -
        have "last ?l \<in> set ?l" using lne by (rule last_in_set)
        then have "z \<noteq> last ?l" using zl by metis
        then show ?thesis unfolding n1 by simp
      qed
      finally show ?thesis .
    qed
    have e: "merge_sort h p element_t_cmp = Some (h4, r4)"
      using npn loop L(1) R(1) M(1) unfolding h1_def
      by (subst merge_sort.simps) simp
    have "path (nxt h4) r4 (merge_list (element_t_cmp h) ysl ysr) NULL"
      using M(2) c3 by simp
    moreover have "prv h4 = prv h" "val h4 = val h" "cmem h4 = cmem h" "live h4 = live h"
      using M(4-7) R(5-8) L(5-8) fr1 by simp_all
    ultimately show ?thesis using e st fz by blast
  qed
qed

lemma pchain_Cons2: "pchain pv (a # b # xs) = (pv b = a \<and> pchain pv (b # xs))"
proof
  assume p: "pchain pv (a # b # xs)"
  have "Suc 0 < length (a # b # xs)" by simp
  then have "pv ((a # b # xs) ! Suc 0) = (a # b # xs) ! 0" using p unfolding pchain_def by blast
  moreover have "pv ((b # xs) ! Suc i) = (b # xs) ! i" if "Suc i < length (b # xs)" for i
  proof -
    have "Suc (Suc i) < length (a # b # xs)" using that by simp
    then have "pv ((a # b # xs) ! Suc (Suc i)) = (a # b # xs) ! Suc i"
      using p unfolding pchain_def by blast
    then show ?thesis by simp
  qed
  ultimately show "pv b = a \<and> pchain pv (b # xs)" by (simp add: pchain_def)
next
  assume q: "pv b = a \<and> pchain pv (b # xs)"
  have "pv ((a # b # xs) ! Suc i) = (a # b # xs) ! i" if "Suc i < length (a # b # xs)" for i
  proof (cases i)
    case 0
    then show ?thesis using q by simp
  next
    case (Suc j)
    then have "Suc j < length (b # xs)" using that by simp
    then have "pv ((b # xs) ! Suc j) = (b # xs) ! j" using q unfolding pchain_def by blast
    then show ?thesis using Suc by simp
  qed
  then show "pchain pv (a # b # xs)" by (simp add: pchain_def)
qed

lemma pchain_single [simp]: "pchain pv [a]"
  by (simp add: pchain_def)

lemma pchain_path_rev: "pchain pv (x # xs) \<Longrightarrow> path pv (last (x # xs)) (rev xs) x"
proof (induction xs arbitrary: x)
  case Nil
  then show ?case by simp
next
  case (Cons y ys)
  then have "pv y = x" "pchain pv (y # ys)" by (simp_all add: pchain_Cons2)
  then show ?case using Cons.IH[of y] by (simp add: path_snoc)
qed

lemma pchain_cong: "(\<And>z. z \<in> set (tl xs) \<Longrightarrow> pv' z = pv z) \<Longrightarrow> pchain pv' xs = pchain pv xs"
proof -
  assume a: "\<And>z. z \<in> set (tl xs) \<Longrightarrow> pv' z = pv z"
  have "pv' (xs ! Suc i) = pv (xs ! Suc i)" if "Suc i < length xs" for i
  proof -
    have "xs ! Suc i = tl xs ! i" using that by (cases xs) auto
    moreover have "i < length (tl xs)" using that by simp
    ultimately have "xs ! Suc i \<in> set (tl xs)" by (metis nth_mem)
    then show ?thesis by (rule a)
  qed
  then show ?thesis by (auto simp: pchain_def)
qed

lemma reconnect_loop_correct:
  assumes "path (nxt h) node (node # rest) NULL" "rest \<noteq> []" "distinct (node # rest)"
    "NULL \<notin> set rest"
  shows "\<exists>h'. reconnect_loop h node = Some (h', last rest) \<and> nxt h' = nxt h \<and>
           pchain (prv h') (node # rest) \<and> (\<forall>z. z \<notin> set rest \<longrightarrow> prv h' z = prv h z) \<and>
           val h' = val h \<and> cmem h' = cmem h \<and> live h' = live h"
  using assms
proof (induction rest arbitrary: h node)
  case Nil
  then show ?case by simp
next
  case (Cons x rest')
  let ?h1 = "set_prev h x node"
  have nn: "nxt h node = x" using Cons.prems(1) by simp
  show ?case
  proof (cases rest')
    case Nil
    then have "nxt h x = NULL" using Cons.prems(1) by simp
    then have "reconnect_loop h node = Some (?h1, x)"
      using nn by (subst reconnect_loop.simps) simp
    then show ?thesis using Nil by (simp add: pchain_Cons2)
  next
    case (Cons y zs)
    have nx: "nxt h x = y" "y \<noteq> NULL" using Cons.prems(1,4) Cons by auto
    have p1: "path (nxt ?h1) x (x # rest') NULL" using Cons.prems(1) by simp
    have c: "rest' \<noteq> []" "distinct (x # rest')" "NULL \<notin> set rest'"
      using Cons Cons.prems(3,4) by auto
    from Cons.IH[OF p1 c] obtain h' where r:
      "reconnect_loop ?h1 x = Some (h', last rest')" "nxt h' = nxt ?h1"
      "pchain (prv h') (x # rest')" "\<forall>z. z \<notin> set rest' \<longrightarrow> prv h' z = prv ?h1 z"
      "val h' = val ?h1" "cmem h' = cmem ?h1" "live h' = live ?h1"
      by blast
    have "x \<notin> set rest'" using Cons.prems(3) by simp
    then have px: "prv h' x = node" using r(4) by simp
    have e: "reconnect_loop h node = Some (h', last rest')"
      using nn nx r(1) by (subst reconnect_loop.simps) simp
    have "pchain (prv h') (node # x # rest')" using px r(3) by (simp add: pchain_Cons2)
    moreover have "prv h' z = prv h z" if "z \<notin> set (x # rest')" for z
      using that r(4) by simp
    ultimately show ?thesis using e r(2,5,6,7) Cons by simp
  qed
qed

lemma ring_pchain: "ring h head ps \<Longrightarrow> pchain (prv h) ps"
proof -
  assume r: "ring h head ps"
  have "prv h (ps ! Suc i) = ps ! i" if i: "Suc i < length ps" for i
  proof -
    have "ps = take (Suc i) ps @ ps ! Suc i # drop (Suc (Suc i)) ps"
      using i by (simp add: id_take_nth_drop)
    then have "ring h head (take (Suc i) ps @ ps ! Suc i # drop (Suc (Suc i)) ps)" using r by simp
    then have "prv h (ps ! Suc i) = last (head # take (Suc i) ps)" by (rule ring_prv)
    also have "\<dots> = last (take (Suc i) ps)" using i by auto
    also have "\<dots> = ps ! (Suc i - 1)" using i by (intro last_take_nth) simp_all
    finally show ?thesis by simp
  qed
  then show ?thesis by (simp add: pchain_def)
qed

lemma path_close:
  assumes "path f p xs q" "xs \<noteq> []" "distinct xs"
  shows "path (f(last xs := q')) p xs q'"
proof -
  obtain bs l where xs: "xs = bs @ [l]" using assms(2) by (cases xs rule: rev_cases) auto
  then have "path f p bs l" "l \<notin> set bs" using assms(1,3) by (auto simp: path_snoc)
  then have "path (f(l := q')) p bs l" by (simp add: path_upd)
  then show ?thesis using xs by (simp add: path_snoc)
qed

lemma is_stable_sort_small: "length ps \<le> 1 \<Longrightarrow> is_stable_sort h ps ps"
  by (cases ps) (auto simp: is_stable_sort_def)

lemma q_sort_correct:
  assumes r: "ring h head ps"
  shows "\<exists>h' ys. q_sort h head = Some h' \<and> ring h' head ys \<and> is_stable_sort h ps ys \<and>
           val h' = val h \<and> cmem h' = cmem h \<and> live h' = live h \<and>
           (length ps \<le> 1 \<longrightarrow> h' = h)"
proof (cases "length ps \<le> 1")
  case True
  then have "list_empty h head \<or> list_is_singular h head"
    using ring_empty_iff[OF r] ring_singular_iff[OF r] by (cases ps) auto
  then have "q_sort h head = Some h" by (auto simp: q_sort_def)
  then show ?thesis using r True is_stable_sort_small[OF True] by blast
next
  case False
  then have c: "\<not> list_empty h head" "\<not> list_is_singular h head" "head \<noteq> NULL" "ps \<noteq> []"
    using ring_empty_iff[OF r] ring_singular_iff[OF r] r by (auto simp: ring_def)
  have d: "distinct ps" "head \<notin> set ps" "NULL \<notin> set ps" using r by (auto simp: ring_def)
  obtain bs l where ps: "ps = bs @ [l]" using c(4) by (cases ps rule: rev_cases) auto
  have pl: "prv h head = last ps" using ring_prv_head[of h head bs l] r ps by simp
  define h1 where "h1 = set_next h (prv h head) NULL"
  have n1: "nxt h1 = (nxt h)(last ps := NULL)" unfolding h1_def pl by simp
  have fr1: "prv h1 = prv h" "val h1 = val h" "cmem h1 = cmem h" "live h1 = live h"
    unfolding h1_def by simp_all
  have lh: "last ps \<noteq> head" using d(2) c(4) last_in_set by metis
  have nh: "nxt h1 head = hd ps" using n1 lh r c(4) by (cases ps) (auto simp: ring_def)
  have "path (nxt h) (hd ps) ps head" using r c(4) by (cases ps) (auto simp: ring_def)
  then have p1: "path (nxt h1) (hd ps) ps NULL" unfolding n1 using c(4) d(1) by (rule path_close)
  have pc: "pchain (prv h1) ps" using ring_pchain[OF r] fr1 by simp
  from merge_sort_correct[OF p1 c(4) d(1,3) pc]
  obtain h2 first ys where S:
    "merge_sort h1 (hd ps) element_t_cmp = Some (h2, first)" "path (nxt h2) first ys NULL"
    "is_stable_sort h1 ps ys" "\<forall>z. z \<notin> set ps \<longrightarrow> nxt h2 z = nxt h1 z"
    "prv h2 = prv h1" "val h2 = val h1" "cmem h2 = cmem h1" "live h2 = live h1"
    by blast
  have st: "is_stable_sort h ps ys" using S(3) is_stable_sort_frame[OF fr1(2,3)] by simp
  then have ms: "mset ys = mset ps" by (simp add: is_stable_sort_def)
  then have sy: "set ys = set ps" by (rule mset_eq_setD)
  have dy: "distinct ys" using ms d(1) mset_eq_imp_distinct_iff by metis
  have yne: "ys \<noteq> []" using mset_nonempty[OF ms c(4)] .
  define h3 where "h3 = set_next h2 head first"
  have "path (nxt h3) first ys NULL = path (nxt h2) first ys NULL"
    unfolding h3_def using d(2) sy by (simp add: path_upd)
  then have p3: "path (nxt h3) head (head # ys) NULL" using S(2) unfolding h3_def by simp
  have c3: "distinct (head # ys)" "NULL \<notin> set ys" using dy sy d by simp_all
  from reconnect_loop_correct[OF p3 yne c3]
  obtain h4 where R:
    "reconnect_loop h3 head = Some (h4, last ys)" "nxt h4 = nxt h3"
    "pchain (prv h4) (head # ys)" "val h4 = val h3" "cmem h4 = cmem h3" "live h4 = live h3"
    by blast
  define h5 where "h5 = set_prev (set_next h4 (last ys) head) head (last ys)"
  have S1: "merge_sort h1 (nxt h1 head) element_t_cmp = Some (h2, first)" using S(1) nh by simp
  have e: "q_sort h head = Some h5"
    unfolding q_sort_def h5_def using c S1[unfolded h1_def] R(1)[unfolded h3_def]
    by (simp add: reconnect_def)
  have "path (nxt h3) head (head # ys) NULL" by (rule p3)
  then have "path ((nxt h3)(last (head # ys) := head)) head (head # ys) head"
    using c3(1) by (intro path_close) simp_all
  then have pn: "path (nxt h5) head (head # ys) head"
    unfolding h5_def using R(2) yne by simp
  have "path (prv h4) (last (head # ys)) (rev ys) head" by (rule pchain_path_rev[OF R(3)])
  then have "path (prv h4) (last ys) (rev ys) head" using yne by simp
  moreover have "head \<notin> set (rev ys)" using c3(1) by simp
  ultimately have "path ((prv h4)(head := last ys)) (last ys) (rev ys) head"
    by (simp add: path_upd)
  then have pp: "path (prv h5) head (head # rev ys) head" unfolding h5_def by simp
  have "ring h5 head ys" unfolding ring_def using c3 c(3) pn pp by simp
  moreover have "val h5 = val h" "cmem h5 = cmem h" "live h5 = live h"
    unfolding h5_def using R(4-6) S(6-8) fr1 by (simp_all add: h3_def)
  ultimately show ?thesis using e st False by blast
qed

lemma ring_consistent_elem:
  assumes "ring h head (xs @ n # ys)"
  shows "prv h (nxt h n) = n \<and> nxt h (prv h n) = n"
proof -
  have nn: "nxt h n = hd (ys @ [head])" using assms by (rule ring_nxt)
  have pn: "prv h n = last (head # xs)" using assms by (rule ring_prv)
  have a: "prv h (nxt h n) = n"
  proof (cases ys)
    case Nil
    then show ?thesis using nn ring_prv_head[of h head xs n] assms by simp
  next
    case (Cons y ys')
    then have "ring h head ((xs @ [n]) @ y # ys')" using assms by simp
    then have "prv h y = last (head # xs @ [n])" by (rule ring_prv)
    then show ?thesis using nn Cons by simp
  qed
  have b: "nxt h (prv h n) = n"
  proof (cases xs rule: rev_cases)
    case Nil
    then show ?thesis using pn ring_nxt_head[of h head n ys] assms by simp
  next
    case (snoc xs' x)
    then have "ring h head (xs' @ x # (n # ys))" using assms by simp
    then have "nxt h x = hd ((n # ys) @ [head])" by (rule ring_nxt)
    then show ?thesis using pn snoc by simp
  qed
  from a b show ?thesis by simp
qed

lemma ring_consistent:
  assumes "ring h head ps" "n \<in> set (head # ps)"
  shows "prv h (nxt h n) = n \<and> nxt h (prv h n) = n"
proof (cases "n = head")
  case True
  show ?thesis
  proof (cases ps)
    case Nil
    then show ?thesis using assms(1) True by (auto simp: ring_def)
  next
    case (Cons x xs)
    then have "ring h head ([] @ x # xs)" using assms(1) by simp
    then have "ring h x (xs @ head # [])" by (rule ring_rotate)
    then have "ring h x (xs @ n # [])" using True by simp
    then show ?thesis by (rule ring_consistent_elem)
  qed
next
  case False
  then have "n \<in> set ps" using assms(2) by simp
  then obtain xs ys where "ps = xs @ n # ys" by (auto simp: in_set_conv_decomp)
  then show ?thesis using assms(1) by (intro ring_consistent_elem) simp
qed

lemma queue_perm:
  assumes "queue h head ps" "ring h' head ps'" "set ps' = set ps" "val h' = val h" "live h' = live h"
  shows "queue h' head ps'"
proof -
  have "inj_on (val h) (set ps)" using assms(1) by (simp add: queue_def distinct_map)
  moreover have "distinct ps'" using assms(2) by (simp add: ring_def)
  ultimately have "distinct (map (val h) ps')" using assms(3) by (simp add: distinct_map)
  then show ?thesis using assms unfolding queue_def by simp
qed

lemma queue_q_new:
  assumes "head \<noteq> NULL" "NULL \<notin> live h0"
  shows "queue (fst (q_new h0 head)) head []"
  using assms by (simp add: q_new_def queue_def ring_def INIT_LIST_HEAD_def)

lemma exec_queue:
  assumes q: "queue h head ps" and m: "malloc_ok h c"
  shows "\<exists>r. exec h head c = Some r \<and> (\<forall>h'. r = Inr h' \<longrightarrow> (\<exists>ps'. queue h' head ps'))"
proof (cases c)
  case (Insert_head s p v)
  obtain h' b where e: "q_insert_head h head s p v = (h', b)" by (cases "q_insert_head h head s p v")
  have f: "fresh h p" using m Insert_head by simp
  have "\<exists>ps'. queue h' head ps'"
  proof (cases b)
    case True
    then have pv: "p \<noteq> NULL" "v \<noteq> NULL"
      using e by (auto simp: q_insert_head_def Let_def split: if_splits)
    then have "p \<notin> live h" "v \<notin> live h" "v \<noteq> p" using m Insert_head by (auto simp: fresh_def)
    from q_insert_head_ok[OF q pv(1) this(1) pv(2) this(2,3), of s] e show ?thesis by auto
  next
    case False
    have e': "q_insert_head h head s p v = (h', False)" using e False by simp
    have pn: "p \<notin> set ps" using q f by (auto simp: queue_def ring_def fresh_def)
    from q_insert_head_fail[OF e' f] pn
    have "queue h' head ps" by (intro queue_frame[OF q]) auto
    then show ?thesis by blast
  qed
  then show ?thesis using Insert_head e by simp
next
  case (Insert_tail s p v)
  obtain h' b where e: "q_insert_tail h head s p v = (h', b)" by (cases "q_insert_tail h head s p v")
  have f: "fresh h p" using m Insert_tail by simp
  have "\<exists>ps'. queue h' head ps'"
  proof (cases b)
    case True
    then have pv: "p \<noteq> NULL" "v \<noteq> NULL"
      using e by (auto simp: q_insert_tail_def Let_def split: if_splits)
    then have "p \<notin> live h" "v \<notin> live h" "v \<noteq> p" using m Insert_tail by (auto simp: fresh_def)
    from q_insert_tail_ok[OF q pv(1) this(1) pv(2) this(2,3), of s] e show ?thesis by auto
  next
    case False
    have e': "q_insert_tail h head s p v = (h', False)" using e False by simp
    have pn: "p \<notin> set ps" using q f by (auto simp: queue_def ring_def fresh_def)
    from q_insert_tail_fail[OF e' f] pn
    have "queue h' head ps" by (intro queue_frame[OF q]) auto
    then show ?thesis by blast
  qed
  then show ?thesis using Insert_tail e by simp
next
  case (Remove_head sp n)
  show ?thesis
  proof (cases "q_remove_head h head sp n")
    case (Inl e)
    then show ?thesis using Remove_head by simp
  next
    case (Inr hr)
    obtain h' r where "hr = (h', r)" by (cases hr)
    then show ?thesis using q_remove_head_queue[OF q, of sp n h' r] Inr Remove_head by auto
  qed
next
  case (Remove_tail sp n)
  show ?thesis
  proof (cases "q_remove_tail h head sp n")
    case (Inl e)
    then show ?thesis using Remove_tail by simp
  next
    case (Inr hr)
    obtain h' r where "hr = (h', r)" by (cases hr)
    then show ?thesis using q_remove_tail_queue[OF q, of sp n h' r] Inr Remove_tail by auto
  qed
next
  case Delete_mid
  show ?thesis
  proof (cases "2 \<le> length ps")
    case True
    from q_delete_mid_correct[OF q True] show ?thesis using Delete_mid by auto
  next
    case False
    then have "q_delete_mid h head = Some (h, False)"
      using q by (intro q_delete_mid_small[of h head ps]) (auto simp: queue_def)
    then show ?thesis using Delete_mid q by auto
  qed
next
  case Swap
  from q_swap_correct[OF queue_ring[OF q]] obtain h' where s:
    "q_swap h head = Some h'" "ring h' head (swap_pairs ps)" "val h' = val h" "live h' = live h"
    by blast
  have "queue h' head (swap_pairs ps)" by (rule queue_perm[OF q s(2) _ s(3,4)]) simp
  then show ?thesis using Swap s(1) by auto
next
  case Reverse
  from q_reverse_correct[OF queue_ring[OF q]] obtain h' where s:
    "q_reverse h head = Some h'" "ring h' head (rev ps)" "val h' = val h" "live h' = live h"
    by blast
  have "queue h' head (rev ps)" by (rule queue_perm[OF q s(2) _ s(3,4)]) simp
  then show ?thesis using Reverse s(1) by auto
next
  case Sort
  from q_sort_correct[OF queue_ring[OF q]] obtain h' ys where s:
    "q_sort h head = Some h'" "ring h' head ys" "is_stable_sort h ps ys"
    "val h' = val h" "live h' = live h"
    by blast
  have "set ys = set ps" using s(3) by (auto simp: is_stable_sort_def dest: mset_eq_setD)
  then have "queue h' head ys" by (rule queue_perm[OF q s(2) _ s(4,5)])
  then show ?thesis using Sort s(1) by auto
qed

lemma run_queue:
  assumes "queue h head ps" "mallocs_ok h head ops"
  shows "\<exists>r. run h head ops = Some r \<and> (\<forall>h'. r = Inr h' \<longrightarrow> (\<exists>ps'. queue h' head ps'))"
  using assms
proof (induction ops arbitrary: h ps)
  case Nil
  then show ?case by auto
next
  case (Cons c cs)
  then have m: "malloc_ok h c" by simp
  from exec_queue[OF Cons.prems(1) m] obtain r where
    r: "exec h head c = Some r" "\<forall>h'. r = Inr h' \<longrightarrow> (\<exists>ps'. queue h' head ps')"
    by blast
  show ?case
  proof (cases r)
    case (Inl e)
    then show ?thesis using r by simp
  next
    case (Inr h')
    then obtain ps' where "queue h' head ps'" using r(2) by blast
    moreover have "mallocs_ok h' head cs" using Cons.prems(2) r(1) Inr by simp
    ultimately show ?thesis using Cons.IH r(1) Inr by simp
  qed
qed

section \<open>The claims\<close>

text \<open>
  C1: the ring invariant. Start from a queue that \<^verbatim>\<open>q_new\<close> has just created at \<open>head\<close>,
  and apply any list of the operations insert at head or tail, remove at head or tail,
  delete middle, swap, reverse and sort, the allocator keeping its contract. The
  list runs to its end or to the first write through an invalid buffer, no loop
  running forever; and whenever it runs to its end, the heap holds a ring: \<open>next\<close>
  leads from the sentinel through the elements back to the sentinel, and every node
  \<open>n\<close> of the ring, the sentinel included, has \<open>n.next.prev = n\<close> and \<open>n.prev.next = n\<close>.
\<close>

theorem ring_invariant:
  assumes "head \<noteq> NULL" "NULL \<notin> live h0" "mallocs_ok (fst (q_new h0 head)) head ops"
  shows "\<exists>r. run (fst (q_new h0 head)) head ops = Some r \<and>
           (\<forall>h. r = Inr h \<longrightarrow>
              (\<exists>ps. ring h head ps \<and>
                 (\<forall>n\<in>set (head # ps). prv h (nxt h n) = n \<and> nxt h (prv h n) = n)))"
proof -
  have q: "queue (fst (q_new h0 head)) head []" by (rule queue_q_new[OF assms(1,2)])
  from run_queue[OF q assms(3)] obtain r where r:
    "run (fst (q_new h0 head)) head ops = Some r"
    "\<forall>h. r = Inr h \<longrightarrow> (\<exists>ps. queue h head ps)"
    by blast
  have "\<exists>ps. ring h head ps \<and> (\<forall>n\<in>set (head # ps). prv h (nxt h n) = n \<and> nxt h (prv h n) = n)"
    if "r = Inr h" for h
  proof -
    from r(2) that obtain ps where "queue h head ps" by blast
    then have "ring h head ps" by (rule queue_ring)
    then show ?thesis using ring_consistent by blast
  qed
  with r(1) show ?thesis by blast
qed

theorem ring_invariant_witness:
  "mallocs_ok (fst (q_new (with_buffer empty_heap 20 8) 1)) 1
     [Insert_tail ''b'' 2 3, Insert_head ''c'' 4 5, Insert_tail ''a'' 6 7,
      Reverse, Swap, Sort, Delete_mid, Remove_head 20 8] \<and>
   (\<exists>h ps. run (fst (q_new (with_buffer empty_heap 20 8) 1)) 1
       [Insert_tail ''b'' 2 3, Insert_head ''c'' 4 5, Insert_tail ''a'' 6 7,
        Reverse, Swap, Sort, Delete_mid, Remove_head 20 8] = Some (Inr h) \<and>
      ring h 1 [4] \<and> ring h 1 ps \<and> prv h (nxt h 1) = 1 \<and> nxt h (prv h 1) = 1)"
proof -
  let ?h = "fst (q_new (with_buffer empty_heap 20 8) 1)"
  let ?ops = "[Insert_tail ''b'' 2 3, Insert_head ''c'' 4 5, Insert_tail ''a'' 6 7,
      Reverse, Swap, Sort, Delete_mid, Remove_head 20 8]"
  have m: "mallocs_ok ?h 1 ?ops"
    by (simp add: eval_defs q_reverse_def q_reverse_loop.simps reverse_node_def
        q_swap_def q_swap_loop.simps q_sort_def merge_sort.simps merge_sort_loop.simps merge_def
        merge_loop.simps reconnect_def reconnect_loop.simps element_t_cmp_def
        q_delete_mid_def q_delete_mid_loop.simps q_remove_head_def)
  have e: "\<exists>h. run ?h 1 ?ops = Some (Inr h) \<and> ring h 1 [4]"
    by (simp add: eval_defs q_reverse_def q_reverse_loop.simps reverse_node_def
        q_swap_def q_swap_loop.simps q_sort_def merge_sort.simps merge_sort_loop.simps merge_def
        merge_loop.simps reconnect_def reconnect_loop.simps element_t_cmp_def
        q_delete_mid_def q_delete_mid_loop.simps q_remove_head_def)
  then obtain h where h: "run ?h 1 ?ops = Some (Inr h)" "ring h 1 [4]" by blast
  have n: "(1::nat) \<noteq> NULL" "NULL \<notin> live (with_buffer empty_heap 20 8)"
    by (simp_all add: eval_defs)
  from ring_invariant[OF n m] h(1) obtain ps where ps:
    "ring h 1 ps" "\<forall>n\<in>set (1 # ps). prv h (nxt h n) = n \<and> nxt h (prv h n) = n"
    by auto
  from ps(2) have "prv h (nxt h 1) = 1 \<and> nxt h (prv h 1) = 1" by simp
  with m h ps(1) show ?thesis by blast
qed

text \<open>
  C2: sort. On a ring with elements \<open>ps\<close>, \<^verbatim>\<open>q_sort\<close> returns and the result is a ring of
  the same nodes \<open>ys\<close>: the strings along \<open>ys\<close> ascend by \<^verbatim>\<open>strcmp\<close>, \<open>ys\<close> is a permutation
  of \<open>ps\<close>, and for every string the elements that hold it come in the order they had
  in \<open>ps\<close>. No string is changed, nothing is allocated or released, and a null head
  and lists of at most one element leave the heap unchanged.
\<close>

theorem q_sort_stable:
  assumes "ring h head ps"
  shows "\<exists>h' ys. q_sort h head = Some h' \<and> ring h' head ys \<and>
           sorted_wrt (\<lambda>s t. strcmp s t \<le> 0) (q_strings h' ys) \<and>
           mset ys = mset ps \<and>
           (\<forall>s. filter (\<lambda>p. cstr h' (val h' p) = s) ys = filter (\<lambda>p. cstr h (val h p) = s) ps) \<and>
           val h' = val h \<and> cmem h' = cmem h \<and> live h' = live h \<and>
           (length ps \<le> 1 \<longrightarrow> h' = h) \<and> q_sort h NULL = Some h"
proof -
  from q_sort_correct[OF assms] obtain h' ys where s:
    "q_sort h head = Some h'" "ring h' head ys" "is_stable_sort h ps ys"
    "val h' = val h" "cmem h' = cmem h" "live h' = live h" "length ps \<le> 1 \<longrightarrow> h' = h"
    by blast
  have k': "cstr h' (val h' p) = cstr h (val h p)" for p
    using s(4,5) by (simp add: cstr_def)
  then have k: "(\<lambda>p. cstr h' (val h' p)) = (\<lambda>p. cstr h (val h p))" by simp
  have "sorted_wrt (\<lambda>a b. strcmp (cstr h (val h a)) (cstr h (val h b)) \<le> 0) ys"
    using s(3) by (simp add: is_stable_sort_def element_t_cmp_def)
  then have "sorted_wrt (\<lambda>s t. strcmp s t \<le> 0) (q_strings h' ys)"
    unfolding q_strings_def k by (simp add: sorted_wrt_map)
  moreover have "mset ys = mset ps"
    and "\<forall>s. filter (\<lambda>p. cstr h' (val h' p) = s) ys = filter (\<lambda>p. cstr h (val h p) = s) ps"
    using s(3) by (simp_all add: is_stable_sort_def k')
  moreover have "q_sort h NULL = Some h" by (simp add: q_sort_def)
  ultimately show ?thesis using s by blast
qed

theorem q_sort_stable_witness:
  "ring (make_queue empty_heap 1 [(''b'', 2, 3), (''a'', 4, 5), (''b'', 6, 7), (''a'', 8, 9)])
     1 [2, 4, 6, 8] \<and>
   (\<exists>h' ys. q_sort (make_queue empty_heap 1 [(''b'', 2, 3), (''a'', 4, 5), (''b'', 6, 7), (''a'', 8, 9)]) 1
        = Some h' \<and>
      ring h' 1 ys \<and> sorted_wrt (\<lambda>s t. strcmp s t \<le> 0) (q_strings h' ys) \<and>
      mset ys = mset [2, 4, 6, 8] \<and>
      ring h' 1 [4, 8, 2, 6] \<and> q_strings h' [4, 8, 2, 6] = [''a'', ''a'', ''b'', ''b''])"
proof -
  let ?q = "make_queue empty_heap 1 [(''b'', 2, 3), (''a'', 4, 5), (''b'', 6, 7), (''a'', 8, 9)]"
  have r: "ring ?q 1 [2, 4, 6, 8]" by (simp add: eval_defs)
  have e: "\<exists>h'. q_sort ?q 1 = Some h' \<and> ring h' 1 [4, 8, 2, 6] \<and>
             q_strings h' [4, 8, 2, 6] = [''a'', ''a'', ''b'', ''b'']"
    by (simp add: eval_defs q_sort_def merge_sort.simps merge_sort_loop.simps merge_def
        merge_loop.simps reconnect_def reconnect_loop.simps element_t_cmp_def)
  from q_sort_stable[OF r] e r show ?thesis by auto
qed

text \<open>
  C3: delete middle. On a queue with \<open>n \<ge> 2\<close> elements \<open>ps\<close>, \<^verbatim>\<open>q_delete_mid\<close> returns
  \<open>True\<close>; the result is the queue of the elements before and after index \<open>n div 2\<close>
  in their order, with their strings; the element at that index and its string are
  released and nothing else is. On a queue with at most one element, and on a null
  head, it returns \<open>False\<close> and the heap is unchanged.
\<close>

theorem q_delete_mid_index:
  assumes "queue h head ps"
  shows "(2 \<le> length ps \<longrightarrow>
           (\<exists>h'. q_delete_mid h head = Some (h', True) \<and>
              queue h' head (take (length ps div 2) ps @ drop (Suc (length ps div 2)) ps) \<and>
              q_strings h' (take (length ps div 2) ps @ drop (Suc (length ps div 2)) ps) =
                take (length ps div 2) (q_strings h ps) @ drop (Suc (length ps div 2)) (q_strings h ps) \<and>
              live h' = live h - {ps ! (length ps div 2), val h (ps ! (length ps div 2))})) \<and>
         (length ps \<le> 1 \<longrightarrow> q_delete_mid h head = Some (h, False)) \<and>
         q_delete_mid h NULL = Some (h, False)"
proof -
  have a: "\<exists>h'. q_delete_mid h head = Some (h', True) \<and>
              queue h' head (take (length ps div 2) ps @ drop (Suc (length ps div 2)) ps) \<and>
              q_strings h' (take (length ps div 2) ps @ drop (Suc (length ps div 2)) ps) =
                take (length ps div 2) (q_strings h ps) @ drop (Suc (length ps div 2)) (q_strings h ps) \<and>
              live h' = live h - {ps ! (length ps div 2), val h (ps ! (length ps div 2))}"
    if n: "2 \<le> length ps"
  proof -
    from q_delete_mid_correct[OF assms n] obtain h' where h':
      "q_delete_mid h head = Some (h', True)"
      "queue h' head (take (length ps div 2) ps @ drop (Suc (length ps div 2)) ps)"
      "val h' = val h" "cmem h' = cmem h"
      "live h' = live h - {ps ! (length ps div 2), val h (ps ! (length ps div 2))}"
      by blast
    have "q_strings h' (take (length ps div 2) ps @ drop (Suc (length ps div 2)) ps) =
                take (length ps div 2) (q_strings h ps) @ drop (Suc (length ps div 2)) (q_strings h ps)"
      using q_strings_frame[OF h'(3,4)] by (simp add: q_strings_append q_strings_take q_strings_drop)
    with h' show ?thesis by blast
  qed
  have b: "q_delete_mid h head = Some (h, False)" if "length ps \<le> 1"
    using q_delete_mid_small[OF _ that] assms by (simp add: queue_def)
  have c: "q_delete_mid h NULL = Some (h, False)" by (simp add: q_delete_mid_def)
  from a b c show ?thesis by blast
qed

theorem q_delete_mid_index_witness:
  "queue (make_queue empty_heap 1
      [(''a'', 2, 3), (''b'', 4, 5), (''c'', 6, 7), (''d'', 8, 9), (''e'', 10, 11), (''f'', 12, 13)])
      1 [2, 4, 6, 8, 10, 12] \<and>
   (\<exists>h'. q_delete_mid (make_queue empty_heap 1
      [(''a'', 2, 3), (''b'', 4, 5), (''c'', 6, 7), (''d'', 8, 9), (''e'', 10, 11), (''f'', 12, 13)]) 1
        = Some (h', True) \<and>
      queue h' 1 [2, 4, 6, 10, 12] \<and>
      q_strings h' [2, 4, 6, 10, 12] = [''a'', ''b'', ''c'', ''e'', ''f''] \<and>
      8 \<notin> live h' \<and> 9 \<notin> live h')"
proof -
  let ?q = "make_queue empty_heap 1
      [(''a'', 2, 3), (''b'', 4, 5), (''c'', 6, 7), (''d'', 8, 9), (''e'', 10, 11), (''f'', 12, 13)]"
  have q: "queue ?q 1 [2, 4, 6, 8, 10, 12]" by (simp add: queue_def eval_defs)
  have s: "q_strings ?q [2, 4, 6, 8, 10, 12] = [''a'', ''b'', ''c'', ''d'', ''e'', ''f'']"
    by (simp add: eval_defs)
  have v: "val ?q 8 = 9" by (simp add: eval_defs)
  from q_delete_mid_index[OF q] s q v show ?thesis by auto
qed

text \<open>
  C4: on a list sorted ascending, \<^verbatim>\<open>q_delete_dup\<close> is to remove every element whose
  string occurs more than once. The function returns \<open>True\<close> and changes nothing: the
  queue that holds the string \<open>a\<close> twice still holds both elements afterwards.
\<close>

theorem q_delete_dup_keeps_duplicates:
  "\<exists>h'. q_delete_dup (make_queue empty_heap 1 [(''a'', 2, 3), (''a'', 4, 5)]) 1 = (h', True) \<and>
        ring h' 1 [2, 4] \<and> q_strings h' [2, 4] = [''a'', ''a'']"
  by (simp add: q_delete_dup_def eval_defs)

text \<open>
  C5: with a null \<open>sp\<close>, \<^verbatim>\<open>q_remove_head\<close> and \<^verbatim>\<open>q_remove_tail\<close> are to unlink and return
  the boundary element and write nothing. Both functions copy through \<open>sp\<close> without
  testing it: on a queue of one element and a null \<open>sp\<close> the copy is a write through
  the null pointer, and no element is returned.
\<close>

theorem q_remove_null_sp_faults:
  "q_remove_head (make_queue empty_heap 1 [(''a'', 2, 3)]) 1 NULL 8 = Inl Invalid_write \<and>
   q_remove_tail (make_queue empty_heap 1 [(''a'', 2, 3)]) 1 NULL 8 = Inl Invalid_write"
  by (simp add: q_remove_head_def q_remove_tail_def eval_defs)

text \<open>
  C6: \<^verbatim>\<open>q_free\<close> is to release every string, every element record and the sentinel.
  On the queue of the one element \<open>2\<close> whose string \<open>a\<close> is the block \<open>3\<close>, it releases
  the sentinel \<open>1\<close> and the element \<open>2\<close>, and the string block \<open>3\<close> stays allocated.
\<close>

theorem q_free_leaks_string:
  "\<exists>h'. q_free (make_queue empty_heap 1 [(''a'', 2, 3)]) 1 = Some h' \<and>
        val (make_queue empty_heap 1 [(''a'', 2, 3)]) 2 = 3 \<and>
        1 \<notin> live h' \<and> 2 \<notin> live h' \<and> 3 \<in> live h'"
  by (simp add: q_free_def q_free_loop.simps eval_defs)

text \<open>
  C7: round trip. When \<^verbatim>\<open>q_insert_head\<close> is given the string \<open>s\<close> and its two
  allocations succeed, and \<^verbatim>\<open>q_remove_head\<close> follows at once with a buffer \<open>sp\<close> of
  at least \<open>bufsize\<close> bytes and \<open>bufsize > length s\<close>, the removal returns the element
  just inserted and the buffer starts with the bytes of \<open>s\<close> and the terminating null
  byte, so that the C string in the buffer is \<open>s\<close>.
\<close>

theorem insert_remove_roundtrip:
  assumes "head \<noteq> NULL" "head \<in> live h" "p \<noteq> NULL" "p \<notin> live h" "v \<noteq> NULL" "v \<notin> live h"
    and "sp \<noteq> NULL" "sp \<in> live h" "unat bufsize \<le> length (cmem h sp)"
    and "NUL \<notin> set s" "length s < unat bufsize"
  shows "\<exists>h1 h2. q_insert_head h head s p v = (h1, True) \<and>
           q_remove_head h1 head sp bufsize = Inr (h2, p) \<and>
           take (length s + 1) (cmem h2 sp) = s @ [NUL] \<and> cstr h2 sp = s"
proof -
  let ?h0 = "set_value (strdup (alloc h p) s v) p v"
  let ?h1 = "list_add ?h0 p head"
  have ph: "p \<noteq> head" and sv: "sp \<noteq> v" using assms by auto
  have i: "q_insert_head h head s p v = (?h1, True)"
    using assms by (simp add: q_insert_head_def Let_def)
  have b: "bufsize \<noteq> 0" using assms(11) by (auto simp: unat_eq_zero)
  then have u: "unat (bufsize - 1) = unat bufsize - 1"
    by (simp add: unat_minus_one)
  have ub: "unat (bufsize - 1) < length (cmem ?h1 sp)" "length s \<le> unat (bufsize - 1)"
    using assms sv u by (auto simp: cmem_strdup)
  have sl: "sp \<in> live ?h1" using assms by (simp add: live_strdup)
  obtain h2 r where r: "q_remove_head ?h1 head sp bufsize = Inr (h2, r)"
    using q_remove_head_returns[OF assms(7) sl ub(1)] by blast
  have nh: "nxt ?h1 head = p" by (simp add: nxt_list_add)
  from q_remove_head_Inr[OF r assms(1)] nh ph
  obtain h3 where h3: "r = p" "h2 = list_del h3 p"
    "cmem h3 = (cmem ?h1)(sp := remove_write (cmem ?h1 sp) (cstr ?h1 (val ?h1 p)) (unat (bufsize - 1)))"
    by auto
  have src: "cstr ?h1 (val ?h1 p) = s"
    using assms by (simp add: cstr_def cmem_strdup cstring_id cstring_terminated)
  have c: "cmem h2 sp = remove_write (cmem ?h1 sp) s (unat (bufsize - 1))"
    using h3 src by simp
  have t: "take (length s + 1) (cmem h2 sp) = s @ [NUL]"
    unfolding c using remove_write_fits[OF ub(2,1)] by simp
  have "cstr h2 sp = cstring (take (length s + 1) (cmem h2 sp) @ drop (length s + 1) (cmem h2 sp))"
    by (simp add: cstr_def)
  also have "\<dots> = s" unfolding t using cstring_terminated[OF assms(10)] by simp
  finally show ?thesis using i r h3 t by auto
qed

theorem insert_remove_roundtrip_witness:
  "\<exists>h1 h2. q_insert_head (with_buffer (make_queue empty_heap 1 [(''x'', 2, 3)]) 9 8) 1 ''ab'' 4 5 = (h1, True) \<and>
     q_remove_head h1 1 9 8 = Inr (h2, 4) \<and>
     take (length ''ab'' + 1) (cmem h2 9) = ''ab'' @ [NUL] \<and> cstr h2 9 = ''ab''"
  using insert_remove_roundtrip[of 1 "with_buffer (make_queue empty_heap 1 [(''x'', 2, 3)]) 9 8" 4 5 9 8 "''ab''"]
  by (simp add: eval_defs)

text \<open>
  C8: pairwise swap. On a ring with elements \<open>ps\<close>, \<^verbatim>\<open>q_swap\<close> returns and the result is
  the ring of the same nodes with the two elements of each adjacent pair exchanged:
  the element at an even index \<open>i\<close> is the one that was at \<open>i + 1\<close>, or stays where it
  was when it is the unpaired last element, and the element at an odd index \<open>i\<close> is the
  one that was at \<open>i - 1\<close>. The strings travel with their elements, nothing is
  allocated or released, and a null head and lists of at most one element leave the
  heap unchanged.
\<close>

theorem q_swap_pairs:
  assumes "ring h head ps"
  shows "\<exists>h'. q_swap h head = Some h' \<and> ring h' head (swap_pairs ps) \<and>
           q_strings h' (swap_pairs ps) = swap_pairs (q_strings h ps) \<and>
           length (swap_pairs ps) = length ps \<and>
           (\<forall>i < length ps. swap_pairs ps ! i =
              (if even i then (if Suc i < length ps then ps ! Suc i else ps ! i) else ps ! (i - 1))) \<and>
           val h' = val h \<and> cmem h' = cmem h \<and> live h' = live h \<and>
           (length ps \<le> 1 \<longrightarrow> h' = h) \<and> q_swap h NULL = Some h"
proof -
  from q_swap_correct[OF assms] obtain h' where h':
    "q_swap h head = Some h'" "ring h' head (swap_pairs ps)"
    "val h' = val h" "cmem h' = cmem h" "live h' = live h" "length ps \<le> 1 \<longrightarrow> h' = h"
    by blast
  have "q_strings h' (swap_pairs ps) = swap_pairs (q_strings h ps)"
    using h'(3,4) by (simp add: q_strings_def cstr_def map_swap_pairs)
  moreover have "q_swap h NULL = Some h" by (simp add: q_swap_def)
  ultimately show ?thesis using h' swap_pairs_nth[of _ ps] by auto
qed

theorem q_swap_pairs_witness:
  "ring (make_queue empty_heap 1
      [(''a'', 2, 3), (''b'', 4, 5), (''c'', 6, 7), (''d'', 8, 9), (''e'', 10, 11)]) 1 [2, 4, 6, 8, 10] \<and>
   (\<exists>h'. q_swap (make_queue empty_heap 1
      [(''a'', 2, 3), (''b'', 4, 5), (''c'', 6, 7), (''d'', 8, 9), (''e'', 10, 11)]) 1 = Some h' \<and>
      ring h' 1 [4, 2, 8, 6, 10] \<and>
      q_strings h' [4, 2, 8, 6, 10] = [''b'', ''a'', ''d'', ''c'', ''e''])"
proof -
  let ?q = "make_queue empty_heap 1
      [(''a'', 2, 3), (''b'', 4, 5), (''c'', 6, 7), (''d'', 8, 9), (''e'', 10, 11)]"
  have r: "ring ?q 1 [2, 4, 6, 8, 10]" by (simp add: eval_defs)
  have s: "q_strings ?q [2, 4, 6, 8, 10] = [''a'', ''b'', ''c'', ''d'', ''e'']" by (simp add: eval_defs)
  from q_swap_pairs[OF r] s r show ?thesis by auto
qed

text \<open>
  C9: reverse involution. On a ring with elements \<open>ps\<close>, \<^verbatim>\<open>q_reverse\<close> returns; the
  result is a ring with the elements in reverse order and the same strings; every
  node of the ring, the sentinel included, has its \<open>next\<close> and \<open>prev\<close> exchanged and no
  other node is touched; nothing is allocated or released; and a second
  \<^verbatim>\<open>q_reverse\<close> gives back the heap the first one started from.
\<close>

theorem q_reverse_involution:
  assumes "ring h head ps"
  shows "\<exists>h'. q_reverse h head = Some h' \<and> ring h' head (rev ps) \<and>
           q_strings h' (rev ps) = rev (q_strings h ps) \<and>
           (\<forall>n\<in>set (head # ps). nxt h' n = prv h n \<and> prv h' n = nxt h n) \<and>
           (\<forall>n. n \<notin> set (head # ps) \<longrightarrow> nxt h' n = nxt h n \<and> prv h' n = prv h n) \<and>
           val h' = val h \<and> cmem h' = cmem h \<and> live h' = live h \<and>
           q_reverse h' head = Some h"
proof -
  from q_reverse_correct[OF assms] obtain h' where h':
    "q_reverse h head = Some h'" "ring h' head (rev ps)"
    "\<forall>n\<in>set (head # ps). nxt h' n = prv h n \<and> prv h' n = nxt h n"
    "\<forall>n. n \<notin> set (head # ps) \<longrightarrow> nxt h' n = nxt h n \<and> prv h' n = prv h n"
    "val h' = val h" "cmem h' = cmem h" "live h' = live h" "q_reverse h' head = Some h"
    by blast
  have "q_strings h' (rev ps) = rev (q_strings h ps)"
    using h'(5,6) by (simp add: q_strings_def cstr_def rev_map)
  with h' show ?thesis by blast
qed

theorem q_reverse_involution_witness:
  "ring (make_queue empty_heap 1 [(''a'', 2, 3), (''b'', 4, 5), (''c'', 6, 7)]) 1 [2, 4, 6] \<and>
   (\<exists>h'. q_reverse (make_queue empty_heap 1 [(''a'', 2, 3), (''b'', 4, 5), (''c'', 6, 7)]) 1 = Some h' \<and>
      ring h' 1 [6, 4, 2] \<and> q_strings h' [6, 4, 2] = [''c'', ''b'', ''a''] \<and>
      q_reverse h' 1 = Some (make_queue empty_heap 1 [(''a'', 2, 3), (''b'', 4, 5), (''c'', 6, 7)]))"
proof -
  let ?q = "make_queue empty_heap 1 [(''a'', 2, 3), (''b'', 4, 5), (''c'', 6, 7)]"
  have r: "ring ?q 1 [2, 4, 6]" by (simp add: eval_defs)
  have s: "q_strings ?q [2, 4, 6] = [''a'', ''b'', ''c'']" by (simp add: eval_defs)
  from q_reverse_involution[OF r] s r show ?thesis by auto
qed

text \<open>
  C10: insertion failure atomicity. When \<^verbatim>\<open>q_insert_head\<close> or \<^verbatim>\<open>q_insert_tail\<close> returns
  \<open>False\<close> (\<open>p\<close> being what \<^verbatim>\<open>malloc\<close> returned, null or a block that was not allocated),
  every \<open>next\<close> and \<open>prev\<close> member, every character block and the set of allocated
  blocks are as before the call, the \<open>value\<close> member of every element other than the
  block \<open>p\<close> is as before, and a queue with elements \<open>ps\<close> is the same queue with the
  same strings afterwards. A \<open>False\<close> return has one of three causes: a null head, a
  failed allocation of the element, a failed duplication of the string.
\<close>

theorem insert_failure_atomic:
  assumes "fresh h p"
    and "q_insert_head h head s p v = (h', False) \<or> q_insert_tail h head s p v = (h', False)"
  shows "nxt h' = nxt h \<and> prv h' = prv h \<and> cmem h' = cmem h \<and> live h' = live h \<and>
         (\<forall>x. x \<noteq> p \<longrightarrow> val h' x = val h x) \<and>
         (\<forall>ps. queue h head ps \<longrightarrow> queue h' head ps \<and> q_strings h' ps = q_strings h ps) \<and>
         (head = NULL \<or> p = NULL \<or> v = NULL)"
proof -
  have c: "head = NULL \<or> p = NULL \<or> v = NULL"
    using assms(2) by (auto simp: q_insert_head_def q_insert_tail_def Let_def split: if_splits)
  have f: "nxt h' = nxt h \<and> prv h' = prv h \<and> cmem h' = cmem h \<and> live h' = live h \<and>
         (\<forall>x. x \<noteq> p \<longrightarrow> val h' x = val h x)"
    using assms q_insert_head_fail q_insert_tail_fail by blast
  have "queue h' head ps \<and> q_strings h' ps = q_strings h ps" if q: "queue h head ps" for ps
  proof -
    have "p \<notin> set ps" using q assms(1) by (auto simp: queue_def ring_def fresh_def)
    then have v: "\<And>x. x \<in> set ps \<Longrightarrow> val h' x = val h x" using f by auto
    have "queue h' head ps" by (rule queue_frame[OF q]) (use f v in auto)
    moreover have "q_strings h' ps = q_strings h ps"
      using v f by (simp add: q_strings_def cstr_def)
    ultimately show ?thesis by simp
  qed
  with f c show ?thesis by blast
qed

theorem insert_failure_atomic_witness:
  "fresh (make_queue empty_heap 1 [(''a'', 2, 3)]) 4 \<and>
   snd (q_insert_head (make_queue empty_heap 1 [(''a'', 2, 3)]) 1 ''b'' 4 NULL) = False \<and>
   nxt (fst (q_insert_head (make_queue empty_heap 1 [(''a'', 2, 3)]) 1 ''b'' 4 NULL))
     = nxt (make_queue empty_heap 1 [(''a'', 2, 3)]) \<and>
   live (fst (q_insert_head (make_queue empty_heap 1 [(''a'', 2, 3)]) 1 ''b'' 4 NULL))
     = live (make_queue empty_heap 1 [(''a'', 2, 3)])"
proof -
  let ?q = "make_queue empty_heap 1 [(''a'', 2, 3)]"
  have f: "fresh ?q 4" by (simp add: eval_defs)
  have r: "q_insert_head ?q 1 ''b'' 4 NULL = (fst (q_insert_head ?q 1 ''b'' 4 NULL), False)"
    by (simp add: q_insert_head_def Let_def set_value_def strdup_def)
  from insert_failure_atomic[OF f disjI1[OF r]] f r show ?thesis
    by (metis snd_conv)
qed

end
